theory Spec2Isabelle
  imports
    Main
    "HOL-Library.Word"
    "HOL-Library.Sublist"
    "HOL-Library.Multiset"
    "HOL-Library.Char_ord"
    "HOL-Library.List_Lexorder"
begin

section \<open>QuickbaseDemo: an in-memory record store with on-demand indexes\<close>

text \<open>
  The development embeds two engines of the repository:
  \<^item> the fixed-schema table \<open>QBTable\<close> of \<^verbatim>\<open>Quickbase.cpp\<close> (and, for the query
    router only, its later revision that also checks that the whole match text
    was consumed);
  \<^item> the dynamic-schema table \<open>QBTableDynamic\<close> of \<^verbatim>\<open>src/Quickbase_dynamic.cpp\<close>.

  Vectors are lists, \<open>std::unordered_map\<close> and \<open>std::map\<close> are partial functions,
  \<open>unsigned int\<close> is a 32-bit word and \<open>long\<close> a 64-bit word (LP64).  Every member
  function takes the table and returns the table it leaves behind; a C++
  exception is the \<open>Inl\<close> branch of a sum.
\<close>

subsection \<open>Field values and records\<close>

type_synonym uint = "32 word"
type_synonym long = "64 word"

text \<open>\<open>std::variant<uint, long, std::string>\<close>: the field value and index key.\<close>

datatype FieldType = UInt uint | Long long | Str string

type_synonym IndexKey = FieldType

record QBRecord =
  column0 :: uint
  column1 :: string
  column2 :: long
  column3 :: string

datatype ColumnType = COLUMN0 | COLUMN1 | COLUMN2 | COLUMN3

subsection \<open>The library functions the engines call\<close>

text \<open>
  \<open>std::from_chars\<close> in base 10, as the C++ standard specifies it: no leading
  white space, no plus sign, a minus sign only for a signed type, then the longest
  run of decimal digits.  No digit gives \<open>invalid_argument\<close>; a value outside the
  type gives \<open>result_out_of_range\<close>; otherwise the value comes back together with
  the unconsumed rest of the text (the \<open>ptr\<close> of the result).
\<close>

datatype errc = invalid_argument | result_out_of_range

definition is_digit :: "char \<Rightarrow> bool" where
  "is_digit c = (c \<in> set ''0123456789'')"

definition digits_to_nat :: "string \<Rightarrow> nat" where
  "digits_to_nat ds = foldl (\<lambda>acc c. 10 * acc + (of_char c - 48)) 0 ds"

definition from_chars_uint :: "string \<Rightarrow> errc + (uint \<times> string)" where
  "from_chars_uint s =
     (let ds = takeWhile is_digit s in
      if ds = [] then Inl invalid_argument
      else if digits_to_nat ds > 4294967295 then Inl result_out_of_range
      else Inr (of_nat (digits_to_nat ds), dropWhile is_digit s))"

definition from_chars_long :: "string \<Rightarrow> errc + (long \<times> string)" where
  "from_chars_long s =
     (let neg = (case s of [] \<Rightarrow> False | c # _ \<Rightarrow> c = CHR ''-'');
          body = (if neg then tl s else s);
          ds = takeWhile is_digit body;
          v = (if neg then - int (digits_to_nat ds) else int (digits_to_nat ds))
      in if ds = [] then Inl invalid_argument
         else if v < - 9223372036854775808 \<or> 9223372036854775807 < v
           then Inl result_out_of_range
         else Inr (of_int v, dropWhile is_digit body))"

text \<open>
  \<open>std::string::find\<close>: the first position at which the match text occurs, or
  \<open>npos\<close> (here \<open>None\<close>).  The empty text occurs at position 0 of every string.
\<close>

fun str_find :: "string \<Rightarrow> string \<Rightarrow> nat option" where
  "str_find [] m = (if m = [] then Some 0 else None)"
| "str_find (c # cs) m =
     (if prefix m (c # cs) then Some 0 else map_option Suc (str_find cs m))"

subsection \<open>The fixed-schema table\<close>

record QBTable =
  records :: "QBRecord list"
  deleted :: "bool list"
  pkIndex :: "uint \<rightharpoonup> nat"
  secondaryIndexedColumns :: "ColumnType set"
  secondaryIndexes :: "(ColumnType \<times> IndexKey) \<rightharpoonup> nat list"

text \<open>A default-constructed table.\<close>

definition QBTable_empty :: QBTable where
  "QBTable_empty =
     \<lparr>records = [], deleted = [], pkIndex = Map.empty,
      secondaryIndexedColumns = {}, secondaryIndexes = Map.empty\<rparr>"

text \<open>\<open>index[key].push_back(i)\<close> on a \<open>std::map\<close> of vectors.\<close>

definition index_push :: "('k \<rightharpoonup> nat list) \<Rightarrow> 'k \<Rightarrow> nat \<Rightarrow> ('k \<rightharpoonup> nat list)" where
  "index_push m k i = m(k \<mapsto> (case m k of None \<Rightarrow> [] | Some l \<Rightarrow> l) @ [i])"

text \<open>
  A \<open>std::set<ColumnType>\<close> is walked in the order of the enumeration.
\<close>

definition columns_in_order :: "ColumnType set \<Rightarrow> ColumnType list" where
  "columns_in_order S = filter (\<lambda>c. c \<in> S) [COLUMN0, COLUMN1, COLUMN2, COLUMN3]"

definition getColumnIndexKey :: "QBTable \<Rightarrow> nat \<Rightarrow> ColumnType \<Rightarrow> IndexKey" where
  "getColumnIndexKey t recordIdx columnID =
     (if recordIdx \<ge> length (records t) then Str []
      else if deleted t ! recordIdx then Str []
      else (let rec = records t ! recordIdx in
        case columnID of
          COLUMN0 \<Rightarrow> UInt (column0 rec)
        | COLUMN1 \<Rightarrow> Str (column1 rec)
        | COLUMN2 \<Rightarrow> Long (column2 rec)
        | COLUMN3 \<Rightarrow> Str (column3 rec)))"

definition rebuildPrimaryKeyIndex :: "QBTable \<Rightarrow> QBTable" where
  "rebuildPrimaryKeyIndex t =
     t\<lparr>pkIndex :=
        fold (\<lambda>i m. if \<not> deleted t ! i then m(column0 (records t ! i) \<mapsto> i) else m)
          [0..<length (records t)] Map.empty\<rparr>"

definition removeSecondaryIndexForColumn :: "ColumnType \<Rightarrow> QBTable \<Rightarrow> QBTable" where
  "removeSecondaryIndexForColumn columnID t =
     t\<lparr>secondaryIndexes :=
        (\<lambda>k. if fst k = columnID then None else secondaryIndexes t k)\<rparr>"

definition rebuildSecondaryIndexForColumn :: "ColumnType \<Rightarrow> QBTable \<Rightarrow> QBTable" where
  "rebuildSecondaryIndexForColumn columnID t =
     (let t1 = removeSecondaryIndexForColumn columnID t in
      t1\<lparr>secondaryIndexes :=
        fold (\<lambda>i m. if \<not> deleted t1 ! i
                     then index_push m (columnID, getColumnIndexKey t1 i columnID) i
                     else m)
          [0..<length (records t1)] (secondaryIndexes t1)\<rparr>)"

text \<open>
  The loop of \<open>linearScan\<close>, over the slots still to visit and the result so far.
  The primary-key case returns at once on the first hit.
\<close>

fun linearScan_loop ::
  "QBTable \<Rightarrow> ColumnType \<Rightarrow> string \<Rightarrow> nat list \<Rightarrow> QBRecord list \<Rightarrow> QBRecord list" where
  "linearScan_loop t columnID matchString [] result = result"
| "linearScan_loop t columnID matchString (i # rest) result =
     (if deleted t ! i then linearScan_loop t columnID matchString rest result
      else (let rec = records t ! i in
        case columnID of
          COLUMN0 \<Rightarrow>
            (case from_chars_uint matchString of
               Inr (matchValue, _) \<Rightarrow>
                 if column0 rec = matchValue then [rec]
                 else linearScan_loop t columnID matchString rest result
             | Inl _ \<Rightarrow> linearScan_loop t columnID matchString rest result)
        | COLUMN1 \<Rightarrow>
            linearScan_loop t columnID matchString rest
              (if str_find (column1 rec) matchString \<noteq> None then result @ [rec] else result)
        | COLUMN2 \<Rightarrow>
            (case from_chars_long matchString of
               Inr (matchValue, _) \<Rightarrow>
                 linearScan_loop t columnID matchString rest
                   (if column2 rec = matchValue then result @ [rec] else result)
             | Inl _ \<Rightarrow> linearScan_loop t columnID matchString rest result)
        | COLUMN3 \<Rightarrow>
            linearScan_loop t columnID matchString rest
              (if str_find (column3 rec) matchString \<noteq> None then result @ [rec] else result)))"

definition linearScan :: "QBTable \<Rightarrow> ColumnType \<Rightarrow> string \<Rightarrow> QBRecord list" where
  "linearScan t columnID matchString =
     linearScan_loop t columnID matchString [0..<length (records t)] []"

definition createIndex :: "ColumnType \<Rightarrow> QBTable \<Rightarrow> QBTable" where
  "createIndex columnID t =
     (if columnID = COLUMN0 then t
      else if columnID \<in> secondaryIndexedColumns t then t
      else rebuildSecondaryIndexForColumn columnID
             (t\<lparr>secondaryIndexedColumns := insert columnID (secondaryIndexedColumns t)\<rparr>))"

definition dropIndex :: "ColumnType \<Rightarrow> QBTable \<Rightarrow> QBTable" where
  "dropIndex columnID t =
     (if columnID = COLUMN0 then t
      else removeSecondaryIndexForColumn columnID
             (t\<lparr>secondaryIndexedColumns := secondaryIndexedColumns t - {columnID}\<rparr>))"

definition isColumnIndexed :: "QBTable \<Rightarrow> ColumnType \<Rightarrow> bool" where
  "isColumnIndexed t columnID =
     (if columnID = COLUMN0 then True else columnID \<in> secondaryIndexedColumns t)"

definition addRecord :: "QBRecord \<Rightarrow> QBTable \<Rightarrow> QBTable" where
  "addRecord record t =
     (let idx = length (records t);
          t1 = t\<lparr>records := records t @ [record],
                 deleted := deleted t @ [False],
                 pkIndex := (pkIndex t)(column0 record \<mapsto> idx)\<rparr>
      in t1\<lparr>secondaryIndexes :=
           fold (\<lambda>columnID m. index_push m (columnID, getColumnIndexKey t1 idx columnID) idx)
             (columns_in_order (secondaryIndexedColumns t1)) (secondaryIndexes t1)\<rparr>)"

text \<open>
  \<open>deleteRecordByID\<close> returns its boolean together with the table.  The soft
  delete erases the slot from every bucket and drops a bucket left empty; the
  hard delete swaps the slot with the last one, shrinks both vectors and rebuilds
  the indexes.
\<close>

definition deleteRecordByID :: "uint \<Rightarrow> bool \<Rightarrow> QBTable \<Rightarrow> bool \<times> QBTable" where
  "deleteRecordByID ident hardDelete t =
     (case pkIndex t ident of
        None \<Rightarrow> (False, t)
      | Some recordIdx \<Rightarrow>
          if \<not> hardDelete \<and> deleted t ! recordIdx then (False, t)
          else if \<not> hardDelete then
            (True,
             t\<lparr>deleted := (deleted t)[recordIdx := True],
               pkIndex := (pkIndex t)(ident := None),
               secondaryIndexes :=
                 (\<lambda>k. case secondaryIndexes t k of
                         None \<Rightarrow> None
                       | Some indices \<Rightarrow>
                           (let indices' = removeAll recordIdx indices in
                            if indices' = [] then None else Some indices'))\<rparr>)
          else
            (let lastIdx = length (records t) - 1;
                 t1 = t\<lparr>records :=
                          butlast ((records t)[recordIdx := records t ! lastIdx,
                                                 lastIdx := records t ! recordIdx]),
                        deleted :=
                          butlast ((deleted t)[recordIdx := deleted t ! lastIdx,
                                                 lastIdx := deleted t ! recordIdx])\<rparr>;
                 t2 = rebuildPrimaryKeyIndex t1
             in (True,
                 fold rebuildSecondaryIndexForColumn
                   (columns_in_order (secondaryIndexedColumns t2)) t2)))"

definition findMatching :: "QBTable \<Rightarrow> ColumnType \<Rightarrow> string \<Rightarrow> QBRecord list" where
  "findMatching t columnID matchString =
     (if columnID = COLUMN0 then
        (case from_chars_uint matchString of
           Inl _ \<Rightarrow> []
         | Inr (matchValue, _) \<Rightarrow>
             (case pkIndex t matchValue of
                None \<Rightarrow> []
              | Some i \<Rightarrow> if \<not> deleted t ! i then [records t ! i] else []))
      else if columnID \<in> secondaryIndexedColumns t then
        (case (case columnID of
                 COLUMN2 \<Rightarrow>
                   (case from_chars_long matchString of
                      Inl _ \<Rightarrow> None
                    | Inr (v, _) \<Rightarrow> Some (Long v))
               | _ \<Rightarrow> Some (Str matchString)) of
           None \<Rightarrow> []
         | Some lookupKey \<Rightarrow>
             (case secondaryIndexes t (columnID, lookupKey) of
                None \<Rightarrow> []
              | Some bucket \<Rightarrow>
                  map (\<lambda>idx. records t ! idx) (filter (\<lambda>idx. \<not> deleted t ! idx) bucket)))
      else linearScan t columnID matchString)"


definition totalRecordsCount :: "QBTable \<Rightarrow> nat" where
  "totalRecordsCount t = length (records t)"

definition compactRecords :: "QBTable \<Rightarrow> QBTable" where
  "compactRecords t =
     (let compacted =
            fold (\<lambda>i acc. if \<not> deleted t ! i then acc @ [records t ! i] else acc)
              [0..<length (records t)] [];
          newDeleted =
            fold (\<lambda>i acc. if \<not> deleted t ! i then acc @ [False] else acc)
              [0..<length (records t)] [];
          t1 = rebuildPrimaryKeyIndex (t\<lparr>records := compacted, deleted := newDeleted\<rparr>);
          t2 = t1\<lparr>secondaryIndexes := Map.empty\<rparr>
      in fold rebuildSecondaryIndexForColumn
           (columns_in_order (secondaryIndexedColumns t2)) t2)"


subsection \<open>The query router of the later revision of the fixed-schema table\<close>

text \<open>
  The later revision of \<open>QBTable::findMatching\<close> and \<open>QBTable::linearScan\<close> accepts
  a number only when \<open>from_chars\<close> consumed the whole match text
  (\<open>convResult.ptr\<close> is the end of the text), and its primary-key branch returns
  the slot the primary-key index names without reading the deleted marker.
\<close>

fun linearScan_loop_rev ::
  "QBTable \<Rightarrow> ColumnType \<Rightarrow> string \<Rightarrow> nat list \<Rightarrow> QBRecord list \<Rightarrow> QBRecord list" where
  "linearScan_loop_rev t columnID matchString [] result = result"
| "linearScan_loop_rev t columnID matchString (i # rest) result =
     (if deleted t ! i then linearScan_loop_rev t columnID matchString rest result
      else (let rec = records t ! i in
        case columnID of
          COLUMN1 \<Rightarrow>
            linearScan_loop_rev t columnID matchString rest
              (if str_find (column1 rec) matchString \<noteq> None then result @ [rec] else result)
        | COLUMN2 \<Rightarrow>
            (case from_chars_long matchString of
               Inl _ \<Rightarrow> []
             | Inr (matchValue, ptr) \<Rightarrow>
                 if ptr \<noteq> [] then []
                 else linearScan_loop_rev t columnID matchString rest
                   (if column2 rec = matchValue then result @ [rec] else result))
        | COLUMN3 \<Rightarrow>
            linearScan_loop_rev t columnID matchString rest
              (if str_find (column3 rec) matchString \<noteq> None then result @ [rec] else result)
        | COLUMN0 \<Rightarrow> linearScan_loop_rev t columnID matchString rest result))"

definition linearScan_rev :: "QBTable \<Rightarrow> ColumnType \<Rightarrow> string \<Rightarrow> QBRecord list" where
  "linearScan_rev t columnID matchString =
     linearScan_loop_rev t columnID matchString [0..<length (records t)] []"

definition findMatching_rev :: "QBTable \<Rightarrow> ColumnType \<Rightarrow> string \<Rightarrow> QBRecord list" where
  "findMatching_rev t columnID matchString =
     (if columnID = COLUMN0 then
        (case from_chars_uint matchString of
           Inl _ \<Rightarrow> []
         | Inr (matchValue, ptr) \<Rightarrow>
             if ptr \<noteq> [] then []
             else (case pkIndex t matchValue of
                     None \<Rightarrow> []
                   | Some i \<Rightarrow> [records t ! i]))
      else if columnID \<in> secondaryIndexedColumns t then
        (case (case columnID of
                 COLUMN2 \<Rightarrow>
                   (case from_chars_long matchString of
                      Inl _ \<Rightarrow> None
                    | Inr (v, ptr) \<Rightarrow> if ptr \<noteq> [] then None else Some (Long v))
               | _ \<Rightarrow> Some (Str matchString)) of
           None \<Rightarrow> []
         | Some lookupKey \<Rightarrow>
             (case secondaryIndexes t (columnID, lookupKey) of
                None \<Rightarrow> []
              | Some bucket \<Rightarrow>
                  map (\<lambda>idx. records t ! idx) (filter (\<lambda>idx. \<not> deleted t ! idx) bucket)))
      else linearScan_rev t columnID matchString)"

subsection \<open>The dynamic-schema table\<close>

text \<open>
  A dynamic record: the primary key \<open>id\<close> (here \<open>id_key\<close>) and the map of its
  fields.  A derived column is a function of the record.
\<close>

record QBRecordDynamic =
  id_key :: uint
  rec_fields :: "string \<rightharpoonup> FieldType"

type_synonym DerivedFunc = "QBRecordDynamic \<Rightarrow> FieldType"

text \<open>The exceptions the dynamic table lets escape.\<close>

datatype exn = runtime_error string | bad_variant_access

text \<open>
  The set of indexed columns is a \<open>std::set<std::string>\<close>, walked in ascending
  order: it is kept as the ascending list of its members, so that a loop that
  throws half-way leaves the table the source leaves.
\<close>

record QBTableDynamic =
  dyn_records :: "QBRecordDynamic list"
  dyn_deleted :: "bool list"
  columns :: "string set"
  derivedColumns :: "string \<rightharpoonup> DerivedFunc"
  dyn_pkIndex :: "uint \<rightharpoonup> nat"
  dyn_secondaryIndexedColumns :: "string list"
  dyn_secondaryIndexes :: "(string \<times> FieldType) \<rightharpoonup> nat list"

definition QBTableDynamic_empty :: QBTableDynamic where
  "QBTableDynamic_empty =
     \<lparr>dyn_records = [], dyn_deleted = [], columns = {}, derivedColumns = Map.empty,
      dyn_pkIndex = Map.empty, dyn_secondaryIndexedColumns = [],
      dyn_secondaryIndexes = Map.empty\<rparr>"

definition set_insert :: "string \<Rightarrow> string list \<Rightarrow> string list" where
  "set_insert x xs = (if x \<in> set xs then xs else insort x xs)"

definition set_erase :: "string \<Rightarrow> string list \<Rightarrow> string list" where
  "set_erase x xs = removeAll x xs"

text \<open>
  A range-for loop whose body may throw: the loop stops at the first exception
  and the table stays as the body left it.
\<close>

fun for_each ::
  "('a \<Rightarrow> 's \<Rightarrow> (exn + unit) \<times> 's) \<Rightarrow> 'a list \<Rightarrow> 's \<Rightarrow> (exn + unit) \<times> 's" where
  "for_each body [] s = (Inr (), s)"
| "for_each body (x # xs) s =
     (case body x s of
        (Inl e, s') \<Rightarrow> (Inl e, s')
      | (Inr _, s') \<Rightarrow> for_each body xs s')"

definition dyn_getField :: "QBTableDynamic \<Rightarrow> nat \<Rightarrow> string \<Rightarrow> exn + FieldType" where
  "dyn_getField t recordIdx column =
     (let rec = dyn_records t ! recordIdx in
      case rec_fields rec column of
        Some v \<Rightarrow> Inr v
      | None \<Rightarrow>
          (case derivedColumns t column of
             Some f \<Rightarrow> Inr (f rec)
           | None \<Rightarrow> Inl (runtime_error (''Unknown column: '' @ column))))"

text \<open>The body of the loop of \<open>rebuildSecondaryIndex\<close>, for slot \<open>i\<close>.\<close>

definition dyn_rebuildSecondaryIndex_body ::
  "string \<Rightarrow> nat \<Rightarrow> QBTableDynamic \<Rightarrow> (exn + unit) \<times> QBTableDynamic" where
  "dyn_rebuildSecondaryIndex_body column i s =
     (if \<not> dyn_deleted s ! i then
        (case dyn_getField s i column of
           Inl e \<Rightarrow> (Inl e, s)
         | Inr v \<Rightarrow>
             (Inr (),
              s\<lparr>dyn_secondaryIndexes := index_push (dyn_secondaryIndexes s) (column, v) i\<rparr>))
      else (Inr (), s))"

definition dyn_rebuildSecondaryIndex ::
  "string \<Rightarrow> QBTableDynamic \<Rightarrow> (exn + unit) \<times> QBTableDynamic" where
  "dyn_rebuildSecondaryIndex column t =
     for_each (dyn_rebuildSecondaryIndex_body column) [0..<length (dyn_records t)] t"

definition dyn_rebuildPrimaryIndex :: "QBTableDynamic \<Rightarrow> QBTableDynamic" where
  "dyn_rebuildPrimaryIndex t =
     t\<lparr>dyn_pkIndex :=
        fold (\<lambda>i m. if \<not> dyn_deleted t ! i then m(id_key (dyn_records t ! i) \<mapsto> i) else m)
          [0..<length (dyn_records t)] Map.empty\<rparr>"

definition dyn_findMatching ::
  "QBTableDynamic \<Rightarrow> string \<Rightarrow> FieldType \<Rightarrow> exn + QBRecordDynamic list" where
  "dyn_findMatching t column value =
     (if column = ''id'' then
        (case value of
           UInt k \<Rightarrow>
             Inr (case dyn_pkIndex t k of
                    Some i \<Rightarrow> if \<not> dyn_deleted t ! i then [dyn_records t ! i] else []
                  | None \<Rightarrow> [])
         | _ \<Rightarrow> Inl bad_variant_access)
      else
        (case dyn_secondaryIndexes t (column, value) of
           Some bucket \<Rightarrow>
             Inr (map (\<lambda>i. dyn_records t ! i) (filter (\<lambda>i. \<not> dyn_deleted t ! i) bucket))
         | None \<Rightarrow>
             Inr (fold (\<lambda>i result.
                          if dyn_deleted t ! i then result
                          else (case rec_fields (dyn_records t ! i) column of
                                  Some v \<Rightarrow> if v = value then result @ [dyn_records t ! i] else result
                                | None \<Rightarrow> result))
                    [0..<length (dyn_records t)] [])))"

text \<open>
  The bodies of the two loops of \<open>deleteRecordByID\<close> over the indexed columns:
  the soft delete takes slot \<open>idx\<close> out of the bucket of its value, the hard
  delete rebuilds the column.
\<close>

definition dyn_softDelete_body ::
  "nat \<Rightarrow> string \<Rightarrow> QBTableDynamic \<Rightarrow> (exn + unit) \<times> QBTableDynamic" where
  "dyn_softDelete_body idx column s =
     (case dyn_getField s idx column of
        Inl e \<Rightarrow> (Inl e, s)
      | Inr value \<Rightarrow>
          (case dyn_secondaryIndexes s (column, value) of
             None \<Rightarrow> (Inr (), s)
           | Some vec \<Rightarrow>
               (let vec' = removeAll idx vec in
                (Inr (),
                 s\<lparr>dyn_secondaryIndexes :=
                     (if vec' = []
                      then (dyn_secondaryIndexes s)((column, value) := None)
                      else (dyn_secondaryIndexes s)((column, value) \<mapsto> vec'))\<rparr>))))"

definition dyn_hardDelete_body ::
  "string \<Rightarrow> QBTableDynamic \<Rightarrow> (exn + unit) \<times> QBTableDynamic" where
  "dyn_hardDelete_body column s =
     (if column = ''id'' then (Inr (), s) else dyn_rebuildSecondaryIndex column s)"

definition dyn_deleteRecordByID ::
  "uint \<Rightarrow> bool \<Rightarrow> QBTableDynamic \<Rightarrow> (exn + bool) \<times> QBTableDynamic" where
  "dyn_deleteRecordByID ident hardDelete t =
     (case dyn_pkIndex t ident of
        None \<Rightarrow> (Inr False, t)
      | Some idx \<Rightarrow>
          if \<not> hardDelete \<and> dyn_deleted t ! idx then (Inr False, t)
          else if \<not> hardDelete then
            (case for_each (dyn_softDelete_body idx) (dyn_secondaryIndexedColumns t)
                    (t\<lparr>dyn_deleted := (dyn_deleted t)[idx := True],
                       dyn_pkIndex := (dyn_pkIndex t)(ident := None)\<rparr>) of
               (Inl e, t') \<Rightarrow> (Inl e, t')
             | (Inr _, t') \<Rightarrow> (Inr True, t'))
          else
            (let lastIdx = length (dyn_records t) - 1;
                 t1 = (if idx \<noteq> lastIdx
                       then t\<lparr>dyn_records :=
                                 (dyn_records t)[idx := dyn_records t ! lastIdx,
                                                 lastIdx := dyn_records t ! idx],
                               dyn_deleted :=
                                 (dyn_deleted t)[idx := dyn_deleted t ! lastIdx,
                                                 lastIdx := dyn_deleted t ! idx]\<rparr>
                       else t);
                 t2 = t1\<lparr>dyn_records := butlast (dyn_records t1),
                         dyn_deleted := butlast (dyn_deleted t1)\<rparr>;
                 t3 = (dyn_rebuildPrimaryIndex t2)\<lparr>dyn_secondaryIndexes := Map.empty\<rparr>
             in case for_each dyn_hardDelete_body (dyn_secondaryIndexedColumns t3) t3 of
                  (Inl e, t') \<Rightarrow> (Inl e, t')
                | (Inr _, t') \<Rightarrow> (Inr True, t')))"

definition dyn_addColumn ::
  "string \<Rightarrow> FieldType \<Rightarrow> QBTableDynamic \<Rightarrow> bool \<times> QBTableDynamic" where
  "dyn_addColumn name defaultValue t =
     (if name \<in> columns t then (False, t)
      else (True,
            t\<lparr>columns := insert name (columns t),
              dyn_records :=
                map (\<lambda>r. if rec_fields r name = None
                          then r\<lparr>rec_fields := (rec_fields r)(name \<mapsto> defaultValue)\<rparr> else r)
                  (dyn_records t)\<rparr>))"

definition dyn_removeColumn :: "string \<Rightarrow> QBTableDynamic \<Rightarrow> QBTableDynamic" where
  "dyn_removeColumn name t =
     t\<lparr>columns := columns t - {name},
       dyn_secondaryIndexedColumns := set_erase name (dyn_secondaryIndexedColumns t),
       dyn_secondaryIndexes := (dyn_secondaryIndexes t)((name, UInt 0) := None),
       dyn_records := map (\<lambda>r. r\<lparr>rec_fields := (rec_fields r)(name := None)\<rparr>) (dyn_records t)\<rparr>"

definition dyn_addDerivedColumn ::
  "string \<Rightarrow> DerivedFunc \<Rightarrow> QBTableDynamic \<Rightarrow> bool \<times> QBTableDynamic" where
  "dyn_addDerivedColumn name func t =
     (if name \<in> columns t then (False, t)
      else (True, t\<lparr>derivedColumns := (derivedColumns t)(name \<mapsto> func)\<rparr>))"

text \<open>The body of the loop of \<open>addRecord\<close> over the indexed columns.\<close>

definition dyn_addRecord_body ::
  "nat \<Rightarrow> string \<Rightarrow> QBTableDynamic \<Rightarrow> (exn + unit) \<times> QBTableDynamic" where
  "dyn_addRecord_body idx col s =
     (case dyn_getField s idx col of
        Inl e \<Rightarrow> (Inl e, s)
      | Inr v \<Rightarrow>
          (Inr (),
           s\<lparr>dyn_secondaryIndexes := index_push (dyn_secondaryIndexes s) (col, v) idx\<rparr>))"

definition dyn_addRecord ::
  "QBRecordDynamic \<Rightarrow> QBTableDynamic \<Rightarrow> (exn + bool) \<times> QBTableDynamic" where
  "dyn_addRecord record t =
     (if \<exists>key \<in> dom (rec_fields record). key \<notin> columns t then (Inr False, t)
      else
        (let idx = length (dyn_records t);
             t1 = t\<lparr>dyn_records := dyn_records t @ [record],
                    dyn_deleted := dyn_deleted t @ [False],
                    dyn_pkIndex := (dyn_pkIndex t)(id_key record \<mapsto> idx)\<rparr>
         in case for_each (dyn_addRecord_body idx) (dyn_secondaryIndexedColumns t1) t1 of
              (Inl e, t') \<Rightarrow> (Inl e, t')
            | (Inr _, t') \<Rightarrow> (Inr True, t')))"

definition dyn_createIndex ::
  "string \<Rightarrow> QBTableDynamic \<Rightarrow> (exn + unit) \<times> QBTableDynamic" where
  "dyn_createIndex column t =
     (if column \<notin> columns t \<and> derivedColumns t column = None
      then (Inl (runtime_error ''Cannot index unknown column''), t)
      else if column \<in> set (dyn_secondaryIndexedColumns t) then (Inr (), t)
      else dyn_rebuildSecondaryIndex column
             (t\<lparr>dyn_secondaryIndexedColumns :=
                  set_insert column (dyn_secondaryIndexedColumns t)\<rparr>))"

definition dyn_dropIndex ::
  "string \<Rightarrow> QBTableDynamic \<Rightarrow> (exn + unit) \<times> QBTableDynamic" where
  "dyn_dropIndex column t =
     (if column = ''id''
      then (Inl (runtime_error ''Cannot drop index on primary key column''), t)
      else (Inr (),
            t\<lparr>dyn_secondaryIndexedColumns := set_erase column (dyn_secondaryIndexedColumns t),
              dyn_secondaryIndexes :=
                (\<lambda>k. if fst k = column then None else dyn_secondaryIndexes t k)\<rparr>))"


definition dyn_totalRecordsCount :: "QBTableDynamic \<Rightarrow> nat" where
  "dyn_totalRecordsCount t = length (dyn_records t)"

definition dyn_compactRecords :: "QBTableDynamic \<Rightarrow> (exn + unit) \<times> QBTableDynamic" where
  "dyn_compactRecords t =
     (let compacted =
            fold (\<lambda>i acc. if \<not> dyn_deleted t ! i then acc @ [dyn_records t ! i] else acc)
              [0..<length (dyn_records t)] [];
          t1 = t\<lparr>dyn_records := compacted,
                 dyn_deleted := replicate (length compacted) False\<rparr>;
          t2 = (dyn_rebuildPrimaryIndex t1)\<lparr>dyn_secondaryIndexes := Map.empty\<rparr>
      in for_each dyn_rebuildSecondaryIndex (dyn_secondaryIndexedColumns t2) t2)"

subsection \<open>Sequences of operations on the fixed-schema table\<close>

datatype QBOp =
    AddRecord QBRecord
  | DeleteRecordByID uint bool
  | CreateIndex ColumnType
  | DropIndex ColumnType
  | CompactRecords

fun QBTable_apply :: "QBOp \<Rightarrow> QBTable \<Rightarrow> QBTable" where
  "QBTable_apply (AddRecord r) t = addRecord r t"
| "QBTable_apply (DeleteRecordByID k hardDelete) t = snd (deleteRecordByID k hardDelete t)"
| "QBTable_apply (CreateIndex c) t = createIndex c t"
| "QBTable_apply (DropIndex c) t = dropIndex c t"
| "QBTable_apply CompactRecords t = compactRecords t"

text \<open>The table a sequence of calls leaves, starting from the empty table.\<close>

definition QBTable_run :: "QBOp list \<Rightarrow> QBTable" where
  "QBTable_run ops = fold QBTable_apply ops QBTable_empty"

text \<open>
  The active slots are those whose deleted marker is false; the active records
  are the records in them, in slot order.
\<close>

definition active_slots :: "QBTable \<Rightarrow> nat list" where
  "active_slots t = filter (\<lambda>i. \<not> deleted t ! i) [0..<length (records t)]"

definition active_records :: "QBTable \<Rightarrow> QBRecord list" where
  "active_records t = map (\<lambda>i. records t ! i) (active_slots t)"

definition active_keys :: "QBTable \<Rightarrow> uint list" where
  "active_keys t = map column0 (active_records t)"

text \<open>
  A sequence of calls adds fresh keys when every \<open>addRecord\<close> in it comes with a
  key that no active record holds at that moment.
\<close>

fun fresh_adds :: "QBOp list \<Rightarrow> QBTable \<Rightarrow> bool" where
  "fresh_adds [] t = True"
| "fresh_adds (x # xs) t =
     ((case x of AddRecord r \<Rightarrow> column0 r \<notin> set (active_keys t) | _ \<Rightarrow> True)
      \<and> fresh_adds xs (QBTable_apply x t))"

text \<open>
  The representation invariant of the fixed-schema table: the two vectors are
  parallel, and every entry of the primary-key index names an active slot that
  holds its key.  It makes every vector access of the engine an access in range.
\<close>

definition table_inv :: "QBTable \<Rightarrow> bool" where
  "table_inv t \<longleftrightarrow>
     length (deleted t) = length (records t) \<and>
     (\<forall>k i. pkIndex t k = Some i \<longrightarrow>
        i < length (records t) \<and> \<not> deleted t ! i \<and> column0 (records t ! i) = k)"

text \<open>The value of a record in a column, as a field value.\<close>

definition column_key :: "QBRecord \<Rightarrow> ColumnType \<Rightarrow> IndexKey" where
  "column_key rec columnID =
     (case columnID of
        COLUMN0 \<Rightarrow> UInt (column0 rec)
      | COLUMN1 \<Rightarrow> Str (column1 rec)
      | COLUMN2 \<Rightarrow> Long (column2 rec)
      | COLUMN3 \<Rightarrow> Str (column3 rec))"

text \<open>A bucket of a \<open>std::map\<close> of vectors: present exactly when it is not empty.\<close>

definition bucket_of :: "nat list \<Rightarrow> nat list option" where
  "bucket_of l = (if l = [] then None else Some l)"

text \<open>
  The secondary index a table should hold, as a function of the records, the
  deleted markers and the set of indexed columns alone: for an indexed column,
  the bucket of a value lists, in ascending order, the active slots whose record
  holds that value in the column.
\<close>

definition ideal_index :: "QBTable \<Rightarrow> (ColumnType \<times> IndexKey) \<rightharpoonup> nat list" where
  "ideal_index t =
     (\<lambda>(c, v). if c \<in> secondaryIndexedColumns t
               then bucket_of (filter (\<lambda>i. \<not> deleted t ! i \<and> column_key (records t ! i) c = v)
                                 [0..<length (records t)])
               else None)"

definition index_inv :: "QBTable \<Rightarrow> bool" where
  "index_inv t \<longleftrightarrow> COLUMN0 \<notin> secondaryIndexedColumns t \<and> secondaryIndexes t = ideal_index t"

subsection \<open>Sequences of operations on the dynamic-schema table\<close>

datatype DynOp =
    DynAddColumn string FieldType
  | DynRemoveColumn string
  | DynAddDerivedColumn string DerivedFunc
  | DynCreateIndex string
  | DynDropIndex string
  | DynAddRecord QBRecordDynamic
  | DynDeleteRecordByID uint bool
  | DynCompactRecords

definition thrown :: "exn + 'a \<Rightarrow> exn option" where
  "thrown r = (case r of Inl e \<Rightarrow> Some e | Inr _ \<Rightarrow> None)"

text \<open>
  One call: the exception it threw, if any, and the table it left.  A caller that
  catches the exception goes on with that table.
\<close>

fun dyn_apply :: "DynOp \<Rightarrow> QBTableDynamic \<Rightarrow> exn option \<times> QBTableDynamic" where
  "dyn_apply (DynAddColumn name v) t = (None, snd (dyn_addColumn name v t))"
| "dyn_apply (DynRemoveColumn name) t = (None, dyn_removeColumn name t)"
| "dyn_apply (DynAddDerivedColumn name f) t = (None, snd (dyn_addDerivedColumn name f t))"
| "dyn_apply (DynCreateIndex c) t = (thrown (fst (dyn_createIndex c t)), snd (dyn_createIndex c t))"
| "dyn_apply (DynDropIndex c) t = (thrown (fst (dyn_dropIndex c t)), snd (dyn_dropIndex c t))"
| "dyn_apply (DynAddRecord r) t = (thrown (fst (dyn_addRecord r t)), snd (dyn_addRecord r t))"
| "dyn_apply (DynDeleteRecordByID k hardDelete) t =
     (thrown (fst (dyn_deleteRecordByID k hardDelete t)), snd (dyn_deleteRecordByID k hardDelete t))"
| "dyn_apply DynCompactRecords t = (thrown (fst (dyn_compactRecords t)), snd (dyn_compactRecords t))"

definition dyn_run_from :: "DynOp list \<Rightarrow> QBTableDynamic \<Rightarrow> QBTableDynamic" where
  "dyn_run_from ops t = fold (\<lambda>x s. snd (dyn_apply x s)) ops t"

definition dyn_run :: "DynOp list \<Rightarrow> QBTableDynamic" where
  "dyn_run ops = dyn_run_from ops QBTableDynamic_empty"

text \<open>No call of the sequence throws.\<close>

fun dyn_no_throw :: "DynOp list \<Rightarrow> QBTableDynamic \<Rightarrow> bool" where
  "dyn_no_throw [] t = True"
| "dyn_no_throw (x # xs) t =
     (fst (dyn_apply x t) = None \<and> dyn_no_throw xs (snd (dyn_apply x t)))"

definition dyn_active_slots :: "QBTableDynamic \<Rightarrow> nat list" where
  "dyn_active_slots t = filter (\<lambda>i. \<not> dyn_deleted t ! i) [0..<length (dyn_records t)]"

definition dyn_active_records :: "QBTableDynamic \<Rightarrow> QBRecordDynamic list" where
  "dyn_active_records t = map (\<lambda>i. dyn_records t ! i) (dyn_active_slots t)"

definition dyn_active_keys :: "QBTableDynamic \<Rightarrow> uint list" where
  "dyn_active_keys t = map id_key (dyn_active_records t)"

fun dyn_fresh_adds :: "DynOp list \<Rightarrow> QBTableDynamic \<Rightarrow> bool" where
  "dyn_fresh_adds [] t = True"
| "dyn_fresh_adds (x # xs) t =
     ((case x of DynAddRecord r \<Rightarrow> id_key r \<notin> set (dyn_active_keys t) | _ \<Rightarrow> True)
      \<and> dyn_fresh_adds xs (snd (dyn_apply x t)))"

text \<open>
  The representation invariant of the dynamic table, and the part of a table that
  the loops over the secondary index never touch.
\<close>

definition dyn_inv :: "QBTableDynamic \<Rightarrow> bool" where
  "dyn_inv t \<longleftrightarrow>
     length (dyn_deleted t) = length (dyn_records t) \<and>
     distinct (dyn_secondaryIndexedColumns t) \<and>
     (\<forall>k i. dyn_pkIndex t k = Some i \<longrightarrow>
        i < length (dyn_records t) \<and> \<not> dyn_deleted t ! i \<and> id_key (dyn_records t ! i) = k)"

definition store_of ::
  "QBTableDynamic \<Rightarrow>
   QBRecordDynamic list \<times> bool list \<times> string set \<times> (string \<rightharpoonup> DerivedFunc) \<times>
   (uint \<rightharpoonup> nat) \<times> string list" where
  "store_of t =
     (dyn_records t, dyn_deleted t, columns t, derivedColumns t, dyn_pkIndex t,
      dyn_secondaryIndexedColumns t)"

text \<open>
  A record resolves a column when \<open>getField\<close> finds it: as a field of the record
  or as a derived column.  In a resolving table every active record resolves
  every indexed column.
\<close>

definition resolves :: "QBTableDynamic \<Rightarrow> QBRecordDynamic \<Rightarrow> string \<Rightarrow> bool" where
  "resolves t rec column \<longleftrightarrow> rec_fields rec column \<noteq> None \<or> derivedColumns t column \<noteq> None"



section \<open>Facts about the fixed-schema table\<close>

subsection \<open>Lists and folds\<close>

lemma swap_pop_length:
  "length (butlast (xs[i := a, l := b])) = length xs - 1"
  by simp

lemma swap_pop_nth:
  assumes "i < length xs" "j < length xs - 1"
  shows "butlast (xs[i := xs ! (length xs - 1), length xs - 1 := xs ! i]) ! j
           = (if j = i then xs ! (length xs - 1) else xs ! j)"
  using assms by (simp add: nth_butlast nth_list_update)

lemma fold_pk_sound:
  assumes "fold (\<lambda>i m. if act i then m(key i \<mapsto> i) else m) js m0 k = Some i"
      and "\<And>k i. m0 k = Some i \<Longrightarrow> P k i"
      and "\<And>i. i \<in> set js \<Longrightarrow> act i \<Longrightarrow> P (key i) i"
  shows "P k i"
  using assms
proof (induction js arbitrary: m0)
  case Nil
  then show ?case by simp
next
  case (Cons j js)
  show ?case
  proof (rule Cons.IH[OF Cons.prems(1)[simplified]])
    fix k' i'
    assume "(if act j then m0(key j \<mapsto> j) else m0) k' = Some i'"
    then show "P k' i'"
      using Cons.prems(2,3) by (auto split: if_splits)
  next
    fix i' assume "i' \<in> set js" "act i'"
    then show "P (key i') i'" using Cons.prems(3) by simp
  qed
qed

subsection \<open>What the index rebuilds leave alone\<close>

lemma rebuildSec_frame [simp]:
  "records (rebuildSecondaryIndexForColumn c t) = records t"
  "deleted (rebuildSecondaryIndexForColumn c t) = deleted t"
  "pkIndex (rebuildSecondaryIndexForColumn c t) = pkIndex t"
  "secondaryIndexedColumns (rebuildSecondaryIndexForColumn c t) = secondaryIndexedColumns t"
  by (simp_all add: rebuildSecondaryIndexForColumn_def removeSecondaryIndexForColumn_def Let_def)

lemma fold_rebuildSec_frame [simp]:
  "records (fold rebuildSecondaryIndexForColumn cs t) = records t"
  "deleted (fold rebuildSecondaryIndexForColumn cs t) = deleted t"
  "pkIndex (fold rebuildSecondaryIndexForColumn cs t) = pkIndex t"
  "secondaryIndexedColumns (fold rebuildSecondaryIndexForColumn cs t) = secondaryIndexedColumns t"
  by (induction cs arbitrary: t) simp_all

lemma rebuildPk_frame [simp]:
  "records (rebuildPrimaryKeyIndex t) = records t"
  "deleted (rebuildPrimaryKeyIndex t) = deleted t"
  "secondaryIndexedColumns (rebuildPrimaryKeyIndex t) = secondaryIndexedColumns t"
  "secondaryIndexes (rebuildPrimaryKeyIndex t) = secondaryIndexes t"
  by (simp_all add: rebuildPrimaryKeyIndex_def)

lemma rebuildPk_sound:
  assumes "pkIndex (rebuildPrimaryKeyIndex t) k = Some i"
  shows "i < length (records t) \<and> \<not> deleted t ! i \<and> column0 (records t ! i) = k"
proof -
  have "fold (\<lambda>i m. if \<not> deleted t ! i then m(column0 (records t ! i) \<mapsto> i) else m)
          [0..<length (records t)] Map.empty k = Some i"
    using assms by (simp add: rebuildPrimaryKeyIndex_def)
  then show ?thesis
    by (rule fold_pk_sound) auto
qed

lemma fold_compact:
  "fold (\<lambda>i acc. if act i then acc @ [f i] else acc) js acc = acc @ map f (filter act js)"
  by (induction js arbitrary: acc) simp_all

lemma compact_records:
  "records (compactRecords t) = active_records t"
  by (simp add: compactRecords_def Let_def fold_compact active_records_def active_slots_def)

lemma compact_deleted:
  "deleted (compactRecords t) = replicate (length (active_records t)) False"
  by (simp add: compactRecords_def Let_def fold_compact active_records_def active_slots_def
      map_replicate_const)

subsection \<open>The representation invariant holds in every reachable table\<close>

lemma inv_empty: "table_inv QBTable_empty"
  by (simp add: table_inv_def QBTable_empty_def)

lemma addRecord_frame [simp]:
  "records (addRecord r t) = records t @ [r]"
  "deleted (addRecord r t) = deleted t @ [False]"
  "pkIndex (addRecord r t) = (pkIndex t)(column0 r \<mapsto> length (records t))"
  "secondaryIndexedColumns (addRecord r t) = secondaryIndexedColumns t"
  by (simp_all add: addRecord_def Let_def)

lemma inv_addRecord: "table_inv t \<Longrightarrow> table_inv (addRecord r t)"
  unfolding table_inv_def
  by (fastforce simp: nth_append less_Suc_eq split: if_splits)

lemma inv_createIndex: "table_inv t \<Longrightarrow> table_inv (createIndex c t)"
  by (simp add: table_inv_def createIndex_def)

lemma inv_dropIndex: "table_inv t \<Longrightarrow> table_inv (dropIndex c t)"
  by (simp add: table_inv_def dropIndex_def removeSecondaryIndexForColumn_def)

lemma inv_compact: "table_inv (compactRecords t)"
proof -
  let ?t1 = "t\<lparr>records := active_records t, deleted := replicate (length (active_records t)) False\<rparr>"
  have pk: "pkIndex (compactRecords t) = pkIndex (rebuildPrimaryKeyIndex ?t1)"
    by (simp add: compactRecords_def Let_def fold_compact active_records_def active_slots_def
        map_replicate_const rebuildPrimaryKeyIndex_def)
  show ?thesis
    unfolding table_inv_def compact_records compact_deleted pk
    using rebuildPk_sound[of ?t1] by auto
qed

lemma inv_delete: 
  assumes "table_inv t"
  shows "table_inv (snd (deleteRecordByID k h t))"
proof (cases "pkIndex t k")
  case None
  then show ?thesis using assms by (simp add: deleteRecordByID_def)
next
  case (Some i)
  with assms have i: "i < length (records t)" "\<not> deleted t ! i" and len: "length (deleted t) = length (records t)"
    by (auto simp: table_inv_def)
  show ?thesis
  proof (cases h)
    case False
    then show ?thesis
      using assms Some i
      by (auto simp: deleteRecordByID_def table_inv_def nth_list_update)
  next
    case True
    let ?l = "length (records t) - 1"
    let ?t1 = "t\<lparr>records := butlast ((records t)[i := records t ! ?l, ?l := records t ! i]),
                  deleted := butlast ((deleted t)[i := deleted t ! ?l, ?l := deleted t ! i])\<rparr>"
    have eq: "snd (deleteRecordByID k h t) =
        fold rebuildSecondaryIndexForColumn (columns_in_order (secondaryIndexedColumns ?t1))
          (rebuildPrimaryKeyIndex ?t1)"
      using Some True by (simp add: deleteRecordByID_def Let_def)
    show ?thesis
      unfolding eq table_inv_def
      using rebuildPk_sound[of ?t1] len by auto
  qed
qed

lemma inv_apply: "table_inv t \<Longrightarrow> table_inv (QBTable_apply x t)"
  by (cases x) (simp_all add: inv_addRecord inv_delete inv_createIndex inv_dropIndex inv_compact)

lemma inv_fold: "table_inv t \<Longrightarrow> table_inv (fold QBTable_apply ops t)"
  by (induction ops arbitrary: t) (simp_all add: inv_apply)

lemma inv_run: "table_inv (QBTable_run ops)"
  by (simp add: QBTable_run_def inv_fold inv_empty)

subsection \<open>At most one active record per key\<close>

lemma distinct_map_filter_upt:
  "distinct (map f (filter P [0..<n])) \<longleftrightarrow>
     (\<forall>i<n. \<forall>j<n. P i \<longrightarrow> P j \<longrightarrow> f i = f j \<longrightarrow> i = j)"
  by (auto simp: distinct_map inj_on_def)

lemma active_keys_eq:
  "active_keys t = map (\<lambda>i. column0 (records t ! i)) (filter (\<lambda>i. \<not> deleted t ! i) [0..<length (records t)])"
  by (simp add: active_keys_def active_records_def active_slots_def)

lemma distinct_active_keys_iff:
  "distinct (active_keys t) \<longleftrightarrow>
     (\<forall>i<length (records t). \<forall>j<length (records t).
        \<not> deleted t ! i \<longrightarrow> \<not> deleted t ! j \<longrightarrow>
        column0 (records t ! i) = column0 (records t ! j) \<longrightarrow> i = j)"
  unfolding active_keys_eq by (rule distinct_map_filter_upt)

lemma mem_active_keys_iff:
  "k \<in> set (active_keys t) \<longleftrightarrow>
     (\<exists>i<length (records t). \<not> deleted t ! i \<and> column0 (records t ! i) = k)"
  unfolding active_keys_eq by auto

lemma active_keys_cong:
  "records t' = records t \<Longrightarrow> deleted t' = deleted t \<Longrightarrow> active_keys t' = active_keys t"
  by (simp add: active_keys_eq)

lemma active_records_compact:
  "active_records (compactRecords t) = active_records t"
proof -
  have "active_records (compactRecords t)
        = map (\<lambda>i. active_records t ! i) [0..<length (active_records t)]"
    by (simp add: active_records_def[of "compactRecords t"] active_slots_def compact_records compact_deleted)
  then show ?thesis by (simp add: map_nth)
qed

lemma unique_addRecord:
  assumes "table_inv t" "distinct (active_keys t)" "column0 r \<notin> set (active_keys t)"
  shows "distinct (active_keys (addRecord r t))"
proof -
  have len: "length (deleted t) = length (records t)" using assms(1) by (simp add: table_inv_def)
  show ?thesis
    using assms(2,3) unfolding distinct_active_keys_iff mem_active_keys_iff
    by (auto simp: nth_append len less_Suc_eq)
qed

lemma unique_delete:
  assumes "table_inv t" "distinct (active_keys t)"
  shows "distinct (active_keys (snd (deleteRecordByID k h t)))"
proof (cases "pkIndex t k")
  case None
  then show ?thesis using assms by (simp add: deleteRecordByID_def)
next
  case (Some i)
  with assms have i: "i < length (records t)" "\<not> deleted t ! i" and len: "length (deleted t) = length (records t)"
    by (auto simp: table_inv_def)
  show ?thesis
  proof (cases h)
    case False
    have "records (snd (deleteRecordByID k h t)) = records t"
         "deleted (snd (deleteRecordByID k h t)) = (deleted t)[i := True]"
      using Some False i by (simp_all add: deleteRecordByID_def)
    moreover have "\<not> (deleted t)[i := True] ! j \<Longrightarrow> \<not> deleted t ! j" if "j < length (records t)" for j
      using that len by (cases "j = i") simp_all
    ultimately show ?thesis
      using assms(2) unfolding distinct_active_keys_iff by simp
  next
    case True
    let ?l = "length (records t) - 1"
    have r: "records (snd (deleteRecordByID k h t)) =
           butlast ((records t)[i := records t ! ?l, ?l := records t ! i])"
     and d: "deleted (snd (deleteRecordByID k h t)) =
           butlast ((deleted t)[i := deleted t ! ?l, ?l := deleted t ! i])"
      using Some True by (simp_all add: deleteRecordByID_def Let_def)
    have d': "deleted (snd (deleteRecordByID k h t)) =
           butlast ((deleted t)[i := deleted t ! (length (deleted t) - 1), length (deleted t) - 1 := deleted t ! i])"
      using d len by simp
    have il: "i < length (deleted t)" using i len by simp
    show ?thesis
      unfolding distinct_active_keys_iff r 
    proof (intro allI impI)
      fix a b
      assume a: "a < length (butlast ((records t)[i := records t ! ?l, ?l := records t ! i]))"
         and b: "b < length (butlast ((records t)[i := records t ! ?l, ?l := records t ! i]))"
         and da: "\<not> deleted (snd (deleteRecordByID k h t)) ! a"
         and db: "\<not> deleted (snd (deleteRecordByID k h t)) ! b"
         and eq: "column0 (butlast ((records t)[i := records t ! ?l, ?l := records t ! i]) ! a)
                = column0 (butlast ((records t)[i := records t ! ?l, ?l := records t ! i]) ! b)"
      have al: "a < ?l" and bl: "b < ?l" using a b by simp_all
      define \<sigma> where "\<sigma> j = (if j = i then ?l else j)" for j
      have ra: "butlast ((records t)[i := records t ! ?l, ?l := records t ! i]) ! a = records t ! \<sigma> a"
        using swap_pop_nth[OF i(1) al] by (simp add: \<sigma>_def)
      have rb: "butlast ((records t)[i := records t ! ?l, ?l := records t ! i]) ! b = records t ! \<sigma> b"
        using swap_pop_nth[OF i(1) bl] by (simp add: \<sigma>_def)
      have da': "\<not> deleted t ! \<sigma> a"
        using da swap_pop_nth[OF il, of a] al len unfolding d' by (simp add: \<sigma>_def split: if_splits)
      have db': "\<not> deleted t ! \<sigma> b"
        using db swap_pop_nth[OF il, of b] bl len unfolding d' by (simp add: \<sigma>_def split: if_splits)
      have "\<sigma> a < length (records t)" "\<sigma> b < length (records t)"
        using al bl i by (auto simp: \<sigma>_def)
      with assms(2) da' db' eq ra rb have "\<sigma> a = \<sigma> b"
        unfolding distinct_active_keys_iff by auto
      then show "a = b" using al bl by (auto simp: \<sigma>_def split: if_splits)
    qed
  qed
qed

lemma unique_apply:
  assumes "table_inv t" "distinct (active_keys t)" "fresh_adds [x] t"
  shows "distinct (active_keys (QBTable_apply x t))"
proof (cases x)
  case (AddRecord r)
  then show ?thesis using assms by (simp add: unique_addRecord)
next
  case (DeleteRecordByID k h)
  then show ?thesis using assms by (simp add: unique_delete)
next
  case (CreateIndex c)
  have "active_keys (createIndex c t) = active_keys t"
    by (rule active_keys_cong) (simp_all add: createIndex_def)
  then show ?thesis using assms CreateIndex by simp
next
  case (DropIndex c)
  have "active_keys (dropIndex c t) = active_keys t"
    by (rule active_keys_cong) (simp_all add: dropIndex_def removeSecondaryIndexForColumn_def)
  then show ?thesis using assms DropIndex by simp
next
  case CompactRecords
  then show ?thesis using assms by (simp add: active_keys_def active_records_compact)
qed

lemma unique_fold:
  "table_inv t \<Longrightarrow> distinct (active_keys t) \<Longrightarrow> fresh_adds ops t \<Longrightarrow>
   distinct (active_keys (fold QBTable_apply ops t))"
proof (induction ops arbitrary: t)
  case Nil
  then show ?case by simp
next
  case (Cons x ops)
  have "distinct (active_keys (QBTable_apply x t))"
    by (rule unique_apply) (use Cons.prems in simp_all)
  moreover have "table_inv (QBTable_apply x t)" by (rule inv_apply) (rule Cons.prems)
  ultimately show ?case using Cons.IH[of "QBTable_apply x t"] Cons.prems by simp
qed

lemma unique_run:
  "fresh_adds ops QBTable_empty \<Longrightarrow> distinct (active_keys (QBTable_run ops))"
  unfolding QBTable_run_def
proof (rule unique_fold)
  show "table_inv QBTable_empty" by (rule inv_empty)
  show "distinct (active_keys QBTable_empty)" by (simp add: active_keys_eq QBTable_empty_def)
qed

subsection \<open>What the rebuilt indexes hold\<close>




lemma fold_push_bucket:
  "fold (\<lambda>i m. if act i then index_push m (kf i) i else m) js m k =
     (if filter (\<lambda>i. act i \<and> kf i = k) js = [] then m k
      else Some ((case m k of None \<Rightarrow> [] | Some l \<Rightarrow> l) @ filter (\<lambda>i. act i \<and> kf i = k) js))"
  by (induction js arbitrary: m) (auto simp: index_push_def)

lemma getColumnIndexKey_active:
  "i < length (records t) \<Longrightarrow> \<not> deleted t ! i \<Longrightarrow>
   getColumnIndexKey t i c = column_key (records t ! i) c"
  by (simp add: getColumnIndexKey_def column_key_def Let_def)

lemma rebuildSec_lookup:
  "secondaryIndexes (rebuildSecondaryIndexForColumn c t) (c', v) =
     (if c' = c
      then bucket_of (filter (\<lambda>i. \<not> deleted t ! i \<and> column_key (records t ! i) c = v)
                        [0..<length (records t)])
      else secondaryIndexes t (c', v))"
proof -
  define t1 where "t1 = removeSecondaryIndexForColumn c t"
  have r: "records t1 = records t" and d: "deleted t1 = deleted t"
    and m: "secondaryIndexes t1 (c', v) = (if c' = c then None else secondaryIndexes t (c', v))"
    by (simp_all add: t1_def removeSecondaryIndexForColumn_def)
  have f: "filter (\<lambda>i. \<not> deleted t ! i \<and> (c, getColumnIndexKey t1 i c) = (c', v))
             [0..<length (records t)]
         = (if c' = c then filter (\<lambda>i. \<not> deleted t ! i \<and> column_key (records t ! i) c = v)
                        [0..<length (records t)] else [])"
    by (auto simp: getColumnIndexKey_def column_key_def Let_def r d intro!: filter_cong)
  have "secondaryIndexes (rebuildSecondaryIndexForColumn c t) (c', v)
      = fold (\<lambda>i m. if \<not> deleted t ! i then index_push m (c, getColumnIndexKey t1 i c) i else m)
          [0..<length (records t)] (secondaryIndexes t1) (c', v)"
    by (simp add: rebuildSecondaryIndexForColumn_def Let_def t1_def[symmetric] r d)
  also have "\<dots> =
      (if filter (\<lambda>i. \<not> deleted t ! i \<and> (c, getColumnIndexKey t1 i c) = (c', v))
             [0..<length (records t)] = []
       then secondaryIndexes t1 (c', v)
       else Some ((case secondaryIndexes t1 (c', v) of None \<Rightarrow> [] | Some l \<Rightarrow> l) @
                  filter (\<lambda>i. \<not> deleted t ! i \<and> (c, getColumnIndexKey t1 i c) = (c', v))
                    [0..<length (records t)]))"
    by (rule fold_push_bucket)
  finally show ?thesis
    unfolding f m by (simp add: bucket_of_def)
qed

lemma fold_rebuildSec_lookup:
  "secondaryIndexes (fold rebuildSecondaryIndexForColumn cs t) (c', v) =
     (if c' \<in> set cs
      then bucket_of (filter (\<lambda>i. \<not> deleted t ! i \<and> column_key (records t ! i) c' = v)
                        [0..<length (records t)])
      else secondaryIndexes t (c', v))"
proof (induction cs arbitrary: t)
  case Nil
  then show ?case by simp
next
  case (Cons c cs)
  show ?case
    by (simp add: Cons.IH rebuildSec_lookup)
qed

lemma set_columns_in_order [simp]: "set (columns_in_order S) = S"
proof -
  have "c \<in> set (columns_in_order S) \<longleftrightarrow> c \<in> S" for c
    by (cases c) (simp_all add: columns_in_order_def)
  then show ?thesis by blast
qed

lemma distinct_columns_in_order [simp]: "distinct (columns_in_order S)"
  by (simp add: columns_in_order_def)


subsection \<open>The secondary index is a function of the store\<close>

lemma ideal_index_apply:
  "ideal_index t (c, v) =
     (if c \<in> secondaryIndexedColumns t
      then bucket_of (filter (\<lambda>i. \<not> deleted t ! i \<and> column_key (records t ! i) c = v)
                        [0..<length (records t)])
      else None)"
  by (simp add: ideal_index_def)

lemma index_invI:
  assumes "COLUMN0 \<notin> secondaryIndexedColumns t"
      and "\<And>c v. secondaryIndexes t (c, v) = ideal_index t (c, v)"
  shows "index_inv t"
  unfolding index_inv_def using assms by (auto simp: fun_eq_iff)

lemma index_invD:
  "index_inv t \<Longrightarrow> secondaryIndexes t (c, v) = ideal_index t (c, v)"
  "index_inv t \<Longrightarrow> COLUMN0 \<notin> secondaryIndexedColumns t"
  by (simp_all add: index_inv_def)

lemma bucket_of_case [simp]: "(case bucket_of l of None \<Rightarrow> [] | Some l' \<Rightarrow> l') = l"
  by (simp add: bucket_of_def)

lemma index_inv_empty: "index_inv QBTable_empty"
  by (rule index_invI) (simp_all add: QBTable_empty_def ideal_index_apply)

lemma index_inv_createIndex:
  assumes "index_inv t"
  shows "index_inv (createIndex c t)"
proof (cases "c = COLUMN0 \<or> c \<in> secondaryIndexedColumns t")
  case True
  then show ?thesis using assms by (auto simp: createIndex_def)
next
  case False
  let ?t' = "t\<lparr>secondaryIndexedColumns := insert c (secondaryIndexedColumns t)\<rparr>"
  have eq: "createIndex c t = rebuildSecondaryIndexForColumn c ?t'"
    using False by (simp add: createIndex_def)
  show ?thesis
    unfolding eq
  proof (rule index_invI)
    show "COLUMN0 \<notin> secondaryIndexedColumns (rebuildSecondaryIndexForColumn c ?t')"
      using False index_invD(2)[OF assms] by auto
  next
    fix c' v
    show "secondaryIndexes (rebuildSecondaryIndexForColumn c ?t') (c', v)
        = ideal_index (rebuildSecondaryIndexForColumn c ?t') (c', v)"
      using index_invD(1)[OF assms, of c' v]
      by (simp add: rebuildSec_lookup ideal_index_apply)
  qed
qed

lemma index_inv_dropIndex:
  assumes "index_inv t"
  shows "index_inv (dropIndex c t)"
proof (cases "c = COLUMN0")
  case True
  then show ?thesis using assms by (simp add: dropIndex_def)
next
  case False
  show ?thesis
  proof (rule index_invI)
    show "COLUMN0 \<notin> secondaryIndexedColumns (dropIndex c t)"
      using index_invD(2)[OF assms] by (simp add: dropIndex_def removeSecondaryIndexForColumn_def)
  next
    fix c' v
    show "secondaryIndexes (dropIndex c t) (c', v) = ideal_index (dropIndex c t) (c', v)"
      using index_invD(1)[OF assms, of c' v] False
      by (simp add: dropIndex_def removeSecondaryIndexForColumn_def ideal_index_apply)
  qed
qed

lemma fold_push_cols:
  "distinct cs \<Longrightarrow>
   fold (\<lambda>c m. index_push m (c, kf c) idx) cs m (c', v) =
     (if c' \<in> set cs \<and> kf c' = v
      then Some ((case m (c', v) of None \<Rightarrow> [] | Some l \<Rightarrow> l) @ [idx])
      else m (c', v))"
  by (induction cs arbitrary: m) (auto simp: index_push_def)

lemma index_inv_addRecord:
  assumes "index_inv t" and len: "length (deleted t) = length (records t)"
  shows "index_inv (addRecord r t)"
proof (rule index_invI)
  show "COLUMN0 \<notin> secondaryIndexedColumns (addRecord r t)"
    using index_invD(2)[OF assms(1)] by simp
next
  fix c v
  let ?n = "length (records t)"
  let ?t1 = "t\<lparr>records := records t @ [r], deleted := deleted t @ [False],
                pkIndex := (pkIndex t)(column0 r \<mapsto> ?n)\<rparr>"
  let ?P = "\<lambda>i. \<not> deleted t ! i \<and> column_key (records t ! i) c = v"
  have k: "getColumnIndexKey ?t1 ?n c' = column_key r c'" for c'
    by (simp add: getColumnIndexKey_def column_key_def Let_def nth_append len)
  have "secondaryIndexes (addRecord r t) (c, v)
      = fold (\<lambda>c m. index_push m (c, column_key r c) ?n)
          (columns_in_order (secondaryIndexedColumns t)) (secondaryIndexes t) (c, v)"
    by (simp add: addRecord_def Let_def k)
  also have "\<dots> = (if c \<in> secondaryIndexedColumns t \<and> column_key r c = v
                   then Some ((case secondaryIndexes t (c, v) of None \<Rightarrow> [] | Some l \<Rightarrow> l) @ [?n])
                   else secondaryIndexes t (c, v))"
    by (simp add: fold_push_cols)
  finally have lhs: "secondaryIndexes (addRecord r t) (c, v) =
       (if c \<in> secondaryIndexedColumns t \<and> column_key r c = v
        then Some ((case secondaryIndexes t (c, v) of None \<Rightarrow> [] | Some l \<Rightarrow> l) @ [?n])
        else secondaryIndexes t (c, v))" .
  let ?P' = "\<lambda>i. \<not> (deleted t @ [False]) ! i \<and> column_key ((records t @ [r]) ! i) c = v"
  have f: "filter ?P' [0..<?n] = filter ?P [0..<?n]"
    by (rule filter_cong) (auto simp: nth_append len)
  have "filter ?P' [0..<Suc ?n] = filter ?P' [0..<?n] @ filter ?P' [?n]"
    by simp
  also have "\<dots> = filter ?P [0..<?n] @ (if column_key r c = v then [?n] else [])"
    unfolding f by (simp add: nth_append len)
  finally have f2: "filter ?P' [0..<Suc ?n]
      = filter ?P [0..<?n] @ (if column_key r c = v then [?n] else [])" .
  have "ideal_index (addRecord r t) (c, v) =
       (if c \<in> secondaryIndexedColumns t then bucket_of (filter ?P' [0..<Suc ?n]) else None)"
    by (simp add: ideal_index_apply del: upt_Suc)
  then have rhs: "ideal_index (addRecord r t) (c, v) =
       (if c \<in> secondaryIndexedColumns t
        then bucket_of (filter ?P [0..<?n] @ (if column_key r c = v then [?n] else []))
        else None)"
    unfolding f2 .
  show "secondaryIndexes (addRecord r t) (c, v) = ideal_index (addRecord r t) (c, v)"
    unfolding lhs rhs
    unfolding index_invD(1)[OF assms(1)] ideal_index_apply
    by (simp add: bucket_of_def)
qed

lemma filter_removeAll_upt:
  "i < n \<Longrightarrow> length d = n \<Longrightarrow>
   filter (\<lambda>j. \<not> d[i := True] ! j \<and> Q j) [0..<n] = removeAll i (filter (\<lambda>j. \<not> d ! j \<and> Q j) [0..<n])"
proof -
  assume a: "i < n" "length d = n"
  have "filter (\<lambda>j. \<not> d[i := True] ! j \<and> Q j) [0..<n]
      = filter (\<lambda>j. i \<noteq> j \<and> (\<not> d ! j \<and> Q j)) [0..<n]"
    by (rule filter_cong) (use a in \<open>auto simp: nth_list_update\<close>)
  also have "\<dots> = removeAll i (filter (\<lambda>j. \<not> d ! j \<and> Q j) [0..<n])"
    by (auto simp: removeAll_filter_not_eq intro!: filter_cong)
  finally show ?thesis .
qed

lemma index_inv_delete:
  assumes "index_inv t" "table_inv t"
  shows "index_inv (snd (deleteRecordByID k h t))"
proof (cases "pkIndex t k")
  case None
  then show ?thesis using assms by (simp add: deleteRecordByID_def)
next
  case (Some i)
  with assms have i: "i < length (records t)" "\<not> deleted t ! i" and len: "length (deleted t) = length (records t)"
    by (auto simp: table_inv_def)
  show ?thesis
  proof (cases h)
    case False
    let ?t' = "snd (deleteRecordByID k h t)"
    have r: "records ?t' = records t" and d: "deleted ?t' = (deleted t)[i := True]"
      and s: "secondaryIndexedColumns ?t' = secondaryIndexedColumns t"
      and m: "secondaryIndexes ?t' = (\<lambda>k. case secondaryIndexes t k of None \<Rightarrow> None
                 | Some indices \<Rightarrow> bucket_of (removeAll i indices))"
      using Some False i
      by (simp_all add: deleteRecordByID_def Let_def bucket_of_def fun_eq_iff split: option.splits)
    show ?thesis
    proof (rule index_invI)
      show "COLUMN0 \<notin> secondaryIndexedColumns ?t'" using index_invD(2)[OF assms(1)] s by simp
    next
      fix c v
      show "secondaryIndexes ?t' (c, v) = ideal_index ?t' (c, v)"
        unfolding m ideal_index_apply r d s index_invD(1)[OF assms(1)]
        using filter_removeAll_upt[OF i(1) len, of "\<lambda>j. column_key (records t ! j) c = v"]
        by (simp add: bucket_of_def)
    qed
  next
    case True
    let ?l = "length (records t) - 1"
    let ?t1 = "t\<lparr>records := butlast ((records t)[i := records t ! ?l, ?l := records t ! i]),
                  deleted := butlast ((deleted t)[i := deleted t ! ?l, ?l := deleted t ! i])\<rparr>"
    have eq: "snd (deleteRecordByID k h t) =
        fold rebuildSecondaryIndexForColumn (columns_in_order (secondaryIndexedColumns ?t1))
          (rebuildPrimaryKeyIndex ?t1)"
      using Some True by (simp add: deleteRecordByID_def Let_def)
    show ?thesis
      unfolding eq
    proof (rule index_invI)
      show "COLUMN0 \<notin> secondaryIndexedColumns
             (fold rebuildSecondaryIndexForColumn (columns_in_order (secondaryIndexedColumns ?t1))
               (rebuildPrimaryKeyIndex ?t1))"
        using index_invD(2)[OF assms(1)] by simp
    next
      fix c v
      show "secondaryIndexes (fold rebuildSecondaryIndexForColumn
               (columns_in_order (secondaryIndexedColumns ?t1)) (rebuildPrimaryKeyIndex ?t1)) (c, v)
          = ideal_index (fold rebuildSecondaryIndexForColumn
               (columns_in_order (secondaryIndexedColumns ?t1)) (rebuildPrimaryKeyIndex ?t1)) (c, v)"
        using index_invD(1)[OF assms(1), of c v]
        by (simp add: fold_rebuildSec_lookup ideal_index_apply)
    qed
  qed
qed

lemma index_inv_compact:
  assumes "index_inv t"
  shows "index_inv (compactRecords t)"
proof -
  let ?t1 = "t\<lparr>records := active_records t, deleted := replicate (length (active_records t)) False\<rparr>"
  let ?t2 = "(rebuildPrimaryKeyIndex ?t1)\<lparr>secondaryIndexes := Map.empty\<rparr>"
  have eq: "compactRecords t =
      fold rebuildSecondaryIndexForColumn (columns_in_order (secondaryIndexedColumns ?t2)) ?t2"
    by (simp add: compactRecords_def Let_def fold_compact active_records_def active_slots_def
        map_replicate_const)
  show ?thesis
    unfolding eq
  proof (rule index_invI)
    show "COLUMN0 \<notin> secondaryIndexedColumns
           (fold rebuildSecondaryIndexForColumn (columns_in_order (secondaryIndexedColumns ?t2)) ?t2)"
      using index_invD(2)[OF assms] by simp
  next
    fix c v
    show "secondaryIndexes (fold rebuildSecondaryIndexForColumn
             (columns_in_order (secondaryIndexedColumns ?t2)) ?t2) (c, v)
        = ideal_index (fold rebuildSecondaryIndexForColumn
             (columns_in_order (secondaryIndexedColumns ?t2)) ?t2) (c, v)"
      by (simp add: fold_rebuildSec_lookup ideal_index_apply)
  qed
qed

lemma index_inv_apply: "table_inv t \<Longrightarrow> index_inv t \<Longrightarrow> index_inv (QBTable_apply x t)"
  by (cases x)
     (simp_all add: index_inv_addRecord index_inv_delete index_inv_createIndex index_inv_dropIndex
        index_inv_compact table_inv_def)

lemma index_inv_fold:
  "table_inv t \<Longrightarrow> index_inv t \<Longrightarrow> index_inv (fold QBTable_apply ops t)"
  by (induction ops arbitrary: t) (simp_all add: index_inv_apply inv_apply)

lemma index_inv_run: "index_inv (QBTable_run ops)"
  by (simp add: QBTable_run_def index_inv_fold inv_empty index_inv_empty)

subsection \<open>The linear scan\<close>

lemma str_find_sublist: "str_find s m = None \<longleftrightarrow> \<not> sublist m s"
  by (induction s) (auto simp: sublist_Cons_right)

lemma linearScan_loop_text1:
  "linearScan_loop t COLUMN1 m js res =
     res @ map (\<lambda>i. records t ! i)
             (filter (\<lambda>i. \<not> deleted t ! i \<and> sublist m (column1 (records t ! i))) js)"
  by (induction js arbitrary: res) (simp_all add: Let_def str_find_sublist)

lemma linearScan_loop_text3:
  "linearScan_loop t COLUMN3 m js res =
     res @ map (\<lambda>i. records t ! i)
             (filter (\<lambda>i. \<not> deleted t ! i \<and> sublist m (column3 (records t ! i))) js)"
  by (induction js arbitrary: res) (simp_all add: Let_def str_find_sublist)

lemma linearScan_loop_num_fail:
  "from_chars_long m = Inl e \<Longrightarrow> linearScan_loop t COLUMN2 m js res = res"
  by (induction js arbitrary: res) (simp_all add: Let_def)

lemma linearScan_loop_num:
  "from_chars_long m = Inr (v, rest) \<Longrightarrow>
   linearScan_loop t COLUMN2 m js res =
     res @ map (\<lambda>i. records t ! i)
             (filter (\<lambda>i. \<not> deleted t ! i \<and> column2 (records t ! i) = v) js)"
  by (induction js arbitrary: res) (simp_all add: Let_def)

lemma active_records_filter:
  "map (\<lambda>i. records t ! i) (filter (\<lambda>i. \<not> deleted t ! i \<and> Q (records t ! i)) [0..<length (records t)])
   = filter Q (active_records t)"
  by (simp add: active_records_def active_slots_def filter_map o_def conj_commute)

lemma linearScan_text1:
  "linearScan t COLUMN1 m = filter (\<lambda>r. sublist m (column1 r)) (active_records t)"
  using active_records_filter[of t "\<lambda>r. sublist m (column1 r)"]
  by (simp add: linearScan_def linearScan_loop_text1)

lemma linearScan_text3:
  "linearScan t COLUMN3 m = filter (\<lambda>r. sublist m (column3 r)) (active_records t)"
  using active_records_filter[of t "\<lambda>r. sublist m (column3 r)"]
  by (simp add: linearScan_def linearScan_loop_text3)

lemma linearScan_num_fail:
  "from_chars_long m = Inl e \<Longrightarrow> linearScan t COLUMN2 m = []"
  by (simp add: linearScan_def linearScan_loop_num_fail)

lemma linearScan_num:
  "from_chars_long m = Inr (v, rest) \<Longrightarrow>
   linearScan t COLUMN2 m = filter (\<lambda>r. column2 r = v) (active_records t)"
  using active_records_filter[of t "\<lambda>r. column2 r = v"]
  by (simp add: linearScan_def linearScan_loop_num)

text \<open>The same for the later revision of the scan.\<close>

lemma linearScan_loop_rev_text1:
  "linearScan_loop_rev t COLUMN1 m js res =
     res @ map (\<lambda>i. records t ! i)
             (filter (\<lambda>i. \<not> deleted t ! i \<and> sublist m (column1 (records t ! i))) js)"
  by (induction js arbitrary: res) (simp_all add: Let_def str_find_sublist)

lemma linearScan_loop_rev_text3:
  "linearScan_loop_rev t COLUMN3 m js res =
     res @ map (\<lambda>i. records t ! i)
             (filter (\<lambda>i. \<not> deleted t ! i \<and> sublist m (column3 (records t ! i))) js)"
  by (induction js arbitrary: res) (simp_all add: Let_def str_find_sublist)

lemma linearScan_rev_text1:
  "linearScan_rev t COLUMN1 m = filter (\<lambda>r. sublist m (column1 r)) (active_records t)"
  using active_records_filter[of t "\<lambda>r. sublist m (column1 r)"]
  by (simp add: linearScan_rev_def linearScan_loop_rev_text1)

lemma linearScan_rev_text3:
  "linearScan_rev t COLUMN3 m = filter (\<lambda>r. sublist m (column3 r)) (active_records t)"
  using active_records_filter[of t "\<lambda>r. sublist m (column3 r)"]
  by (simp add: linearScan_rev_def linearScan_loop_rev_text3)

lemma linearScan_loop_rev_num_fail:
  "from_chars_long m = Inl e \<Longrightarrow> res = [] \<Longrightarrow> linearScan_loop_rev t COLUMN2 m js res = []"
  by (induction js) (simp_all add: Let_def)

lemma linearScan_loop_rev_num_trailing:
  "from_chars_long m = Inr (v, rest) \<Longrightarrow> rest \<noteq> [] \<Longrightarrow> res = [] \<Longrightarrow>
   linearScan_loop_rev t COLUMN2 m js res = []"
  by (induction js) (simp_all add: Let_def)

lemma linearScan_loop_rev_num:
  "from_chars_long m = Inr (v, []) \<Longrightarrow>
   linearScan_loop_rev t COLUMN2 m js res =
     res @ map (\<lambda>i. records t ! i)
             (filter (\<lambda>i. \<not> deleted t ! i \<and> column2 (records t ! i) = v) js)"
  by (induction js arbitrary: res) (simp_all add: Let_def)

lemma linearScan_rev_num_fail:
  "from_chars_long m = Inl e \<Longrightarrow> linearScan_rev t COLUMN2 m = []"
  by (simp add: linearScan_rev_def linearScan_loop_rev_num_fail)

lemma linearScan_rev_num_trailing:
  "from_chars_long m = Inr (v, rest) \<Longrightarrow> rest \<noteq> [] \<Longrightarrow> linearScan_rev t COLUMN2 m = []"
  by (simp add: linearScan_rev_def linearScan_loop_rev_num_trailing)

lemma linearScan_rev_num:
  "from_chars_long m = Inr (v, []) \<Longrightarrow>
   linearScan_rev t COLUMN2 m = filter (\<lambda>r. column2 r = v) (active_records t)"
  using active_records_filter[of t "\<lambda>r. column2 r = v"]
  by (simp add: linearScan_rev_def linearScan_loop_rev_num)

subsection \<open>The indexed lookup\<close>

lemma indexed_lookup:
  assumes "index_inv t" "c \<in> secondaryIndexedColumns t"
  shows "(case secondaryIndexes t (c, v) of None \<Rightarrow> []
          | Some bucket \<Rightarrow> map (\<lambda>idx. records t ! idx) (filter (\<lambda>idx. \<not> deleted t ! idx) bucket))
       = filter (\<lambda>r. column_key r c = v) (active_records t)"
proof -
  define b where
    "b = filter (\<lambda>i. \<not> deleted t ! i \<and> column_key (records t ! i) c = v) [0..<length (records t)]"
  have m: "secondaryIndexes t (c, v) = bucket_of b"
    using assms by (simp add: index_invD(1) ideal_index_apply b_def)
  have fb: "filter (\<lambda>idx. \<not> deleted t ! idx) b = b"
    unfolding b_def by (auto intro!: filter_cong)
  have "(case bucket_of b of None \<Rightarrow> []
          | Some bucket \<Rightarrow> map (\<lambda>idx. records t ! idx) (filter (\<lambda>idx. \<not> deleted t ! idx) bucket))
       = map (\<lambda>idx. records t ! idx) b"
    using fb by (cases "b = []") (simp_all add: bucket_of_def)
  also have "\<dots> = filter (\<lambda>r. column_key r c = v) (active_records t)"
    unfolding b_def by (rule active_records_filter)
  finally show ?thesis unfolding m .
qed

section \<open>Facts about the dynamic-schema table\<close>

subsection \<open>Loops that may throw\<close>

lemma for_each_keeps:
  assumes "\<And>x s. x \<in> set xs \<Longrightarrow> g (snd (body x s)) = g s"
  shows "g (snd (for_each body xs s)) = g s"
  using assms
proof (induction xs arbitrary: s)
  case Nil
  then show ?case by simp
next
  case (Cons x xs)
  obtain r s' where b: "body x s = (r, s')" by (cases "body x s")
  have "g (snd (body x s)) = g s" by (rule Cons.prems) simp
  then have g: "g s' = g s" using b by simp
  show ?case
  proof (cases r)
    case (Inl e)
    then show ?thesis using b g by simp
  next
    case (Inr u)
    have "g (snd (for_each body xs s')) = g s'"
      by (rule Cons.IH) (rule Cons.prems, simp)
    then show ?thesis using b g Inr by simp
  qed
qed

lemma for_each_returns_iff:
  assumes keep: "\<And>x s. x \<in> set xs \<Longrightarrow> g (snd (body x s)) = g s"
      and dep: "\<And>x s s'. x \<in> set xs \<Longrightarrow> g s = g s' \<Longrightarrow> isl (fst (body x s)) = isl (fst (body x s'))"
  shows "isl (fst (for_each body xs s)) \<longleftrightarrow> (\<exists>x \<in> set xs. isl (fst (body x s)))"
  using assms
proof (induction xs arbitrary: s)
  case Nil
  then show ?case by simp
next
  case (Cons x xs)
  obtain r s' where b: "body x s = (r, s')" by (cases "body x s")
  have "g (snd (body x s)) = g s" by (rule Cons.prems(1)) simp
  then have g: "g s' = g s" using b by simp
  show ?case
  proof (cases r)
    case (Inl e)
    then show ?thesis using b by simp
  next
    case (Inr u)
    have ih: "isl (fst (for_each body xs s')) \<longleftrightarrow> (\<exists>y \<in> set xs. isl (fst (body y s')))"
    proof (rule Cons.IH)
      fix y s assume "y \<in> set xs"
      then show "g (snd (body y s)) = g s" by (intro Cons.prems(1)) simp
    next
      fix y s s'' assume "y \<in> set xs" "g s = g s''"
      then show "isl (fst (body y s)) = isl (fst (body y s''))" by (intro Cons.prems(2)) simp_all
    qed
    have same: "isl (fst (body y s')) = isl (fst (body y s))" if "y \<in> set xs" for y
      by (rule Cons.prems(2)) (use that g in simp_all)
    have "\<not> isl (fst (body x s))" using b Inr by simp
    moreover have "for_each body (x # xs) s = for_each body xs s'" using b Inr by simp
    ultimately show ?thesis using ih same by auto
  qed
qed

lemma for_each_result_unit:
  "fst (for_each body xs s) = Inr () \<longleftrightarrow> \<not> isl (fst (for_each body xs s))"
  by (cases "fst (for_each body xs s)") auto

subsection \<open>What the loops over the secondary index leave alone\<close>


lemma getField_isl:
  "isl (dyn_getField t i c) \<longleftrightarrow> \<not> resolves t (dyn_records t ! i) c"
  by (auto simp: dyn_getField_def resolves_def Let_def split: option.splits)


lemma store_of_simps:
  "store_of s = store_of s' \<Longrightarrow> dyn_records s = dyn_records s'"
  "store_of s = store_of s' \<Longrightarrow> dyn_deleted s = dyn_deleted s'"
  "store_of s = store_of s' \<Longrightarrow> columns s = columns s'"
  "store_of s = store_of s' \<Longrightarrow> derivedColumns s = derivedColumns s'"
  "store_of s = store_of s' \<Longrightarrow> dyn_pkIndex s = dyn_pkIndex s'"
  "store_of s = store_of s' \<Longrightarrow> dyn_secondaryIndexedColumns s = dyn_secondaryIndexedColumns s'"
  by (simp_all add: store_of_def)

lemma store_of_index_update [simp]:
  "store_of (s\<lparr>dyn_secondaryIndexes := m\<rparr>) = store_of s"
  by (simp add: store_of_def)

lemma rebuild_body_store:
  "store_of (snd (dyn_rebuildSecondaryIndex_body c i s)) = store_of s"
  by (simp add: dyn_rebuildSecondaryIndex_body_def split: sum.splits)

lemma rebuild_body_isl:
  "isl (fst (dyn_rebuildSecondaryIndex_body c i s)) \<longleftrightarrow>
     \<not> dyn_deleted s ! i \<and> \<not> resolves s (dyn_records s ! i) c"
  using getField_isl[of s i c]
  by (auto simp: dyn_rebuildSecondaryIndex_body_def split: sum.splits)

lemma rebuildSec_store:
  "store_of (snd (dyn_rebuildSecondaryIndex c t)) = store_of t"
  unfolding dyn_rebuildSecondaryIndex_def
  by (rule for_each_keeps) (rule rebuild_body_store)

lemma rebuildSec_isl:
  "isl (fst (dyn_rebuildSecondaryIndex c t)) \<longleftrightarrow>
     (\<exists>i < length (dyn_records t). \<not> dyn_deleted t ! i \<and> \<not> resolves t (dyn_records t ! i) c)"
proof -
  have "isl (fst (for_each (dyn_rebuildSecondaryIndex_body c) [0..<length (dyn_records t)] t)) \<longleftrightarrow>
        (\<exists>i \<in> set [0..<length (dyn_records t)]. isl (fst (dyn_rebuildSecondaryIndex_body c i t)))"
  proof (rule for_each_returns_iff[where g = store_of])
    show "\<And>x s. store_of (snd (dyn_rebuildSecondaryIndex_body c x s)) = store_of s"
      by (rule rebuild_body_store)
  next
    fix x s s' assume "store_of s = store_of s'"
    then show "isl (fst (dyn_rebuildSecondaryIndex_body c x s))
             = isl (fst (dyn_rebuildSecondaryIndex_body c x s'))"
      unfolding rebuild_body_isl by (simp add: store_of_def resolves_def)
  qed
  then show ?thesis
    unfolding dyn_rebuildSecondaryIndex_def rebuild_body_isl by auto
qed

lemma addRecord_body_store:
  "store_of (snd (dyn_addRecord_body idx c s)) = store_of s"
  by (simp add: dyn_addRecord_body_def split: sum.splits)

lemma addRecord_body_isl:
  "isl (fst (dyn_addRecord_body idx c s)) \<longleftrightarrow> \<not> resolves s (dyn_records s ! idx) c"
  using getField_isl[of s idx c]
  by (auto simp: dyn_addRecord_body_def split: sum.splits)

lemma softDelete_body_store:
  "store_of (snd (dyn_softDelete_body idx c s)) = store_of s"
  by (simp add: dyn_softDelete_body_def Let_def split: sum.splits option.splits)


lemma hardDelete_body_store:
  "store_of (snd (dyn_hardDelete_body c s)) = store_of s"
  by (simp add: dyn_hardDelete_body_def rebuildSec_store)


lemma for_each_addRecord_isl:
  "isl (fst (for_each (dyn_addRecord_body idx) cs s)) \<longleftrightarrow>
     (\<exists>c \<in> set cs. \<not> resolves s (dyn_records s ! idx) c)"
proof -
  have "isl (fst (for_each (dyn_addRecord_body idx) cs s)) \<longleftrightarrow>
        (\<exists>c \<in> set cs. isl (fst (dyn_addRecord_body idx c s)))"
  proof (rule for_each_returns_iff[where g = store_of])
    show "\<And>x s. store_of (snd (dyn_addRecord_body idx x s)) = store_of s"
      by (rule addRecord_body_store)
  next
    fix x s s' assume "store_of s = store_of s'"
    then show "isl (fst (dyn_addRecord_body idx x s)) = isl (fst (dyn_addRecord_body idx x s'))"
      unfolding addRecord_body_isl by (simp add: store_of_def resolves_def)
  qed
  then show ?thesis unfolding addRecord_body_isl .
qed



lemma for_each_rebuild_isl:
  "isl (fst (for_each dyn_rebuildSecondaryIndex cs s)) \<longleftrightarrow>
     (\<exists>c \<in> set cs.
        (\<exists>i < length (dyn_records s). \<not> dyn_deleted s ! i \<and> \<not> resolves s (dyn_records s ! i) c))"
proof -
  have "isl (fst (for_each dyn_rebuildSecondaryIndex cs s)) \<longleftrightarrow>
        (\<exists>c \<in> set cs. isl (fst (dyn_rebuildSecondaryIndex c s)))"
  proof (rule for_each_returns_iff[where g = store_of])
    show "\<And>x s. store_of (snd (dyn_rebuildSecondaryIndex x s)) = store_of s"
      by (rule rebuildSec_store)
  next
    fix x s s' assume "store_of s = store_of s'"
    then show "isl (fst (dyn_rebuildSecondaryIndex x s)) = isl (fst (dyn_rebuildSecondaryIndex x s'))"
      unfolding rebuildSec_isl by (simp add: store_of_def resolves_def)
  qed
  then show ?thesis unfolding rebuildSec_isl .
qed


subsection \<open>The store each call leaves\<close>

lemma snd_wrap [simp]:
  "snd (case p of (Inl e, t') \<Rightarrow> (Inl e, t') | (Inr u, t') \<Rightarrow> (Inr b, t')) = snd p"
  by (cases p; cases "fst p") auto

lemma isl_wrap [simp]:
  "isl (fst (case p of (Inl e, t') \<Rightarrow> (Inl e, t') | (Inr u, t') \<Rightarrow> (Inr b, t'))) = isl (fst p)"
  by (cases p; cases "fst p") auto

lemma fst_wrap:
  "fst (case p of (Inl e, t') \<Rightarrow> (Inl e, t') | (Inr u, t') \<Rightarrow> (Inr b, t')) = Inr b'
   \<longleftrightarrow> \<not> isl (fst p) \<and> b' = b"
  by (cases p; cases "fst p") auto

lemma addRecord_rejected:
  "\<exists>key \<in> dom (rec_fields r). key \<notin> columns t \<Longrightarrow> dyn_addRecord r t = (Inr False, t)"
  by (simp add: dyn_addRecord_def)

lemma addRecord_store:
  assumes "\<not> (\<exists>key \<in> dom (rec_fields r). key \<notin> columns t)"
  shows "store_of (snd (dyn_addRecord r t)) =
     store_of (t\<lparr>dyn_records := dyn_records t @ [r], dyn_deleted := dyn_deleted t @ [False],
                 dyn_pkIndex := (dyn_pkIndex t)(id_key r \<mapsto> length (dyn_records t))\<rparr>)"
  using assms
  by (simp add: dyn_addRecord_def Let_def for_each_keeps[where g = store_of] addRecord_body_store)


lemma addRecord_True:
  "fst (dyn_addRecord r t) = Inr True \<longleftrightarrow>
     \<not> (\<exists>key \<in> dom (rec_fields r). key \<notin> columns t) \<and>
     (\<forall>c \<in> set (dyn_secondaryIndexedColumns t). resolves t r c)"
  by (simp add: dyn_addRecord_def Let_def fst_wrap for_each_addRecord_isl resolves_def)

lemma addRecord_False:
  "fst (dyn_addRecord r t) = Inr False \<longleftrightarrow> (\<exists>key \<in> dom (rec_fields r). key \<notin> columns t)"
  by (simp add: dyn_addRecord_def Let_def fst_wrap)

lemma delete_missing:
  "dyn_pkIndex t k = None \<Longrightarrow> dyn_deleteRecordByID k h t = (Inr False, t)"
  by (simp add: dyn_deleteRecordByID_def)

lemma softDelete_store:
  assumes "dyn_pkIndex t k = Some i" "\<not> dyn_deleted t ! i"
  shows "store_of (snd (dyn_deleteRecordByID k False t)) =
     store_of (t\<lparr>dyn_deleted := (dyn_deleted t)[i := True],
                 dyn_pkIndex := (dyn_pkIndex t)(k := None)\<rparr>)"
  using assms
  by (simp add: dyn_deleteRecordByID_def for_each_keeps[where g = store_of] softDelete_body_store)



text \<open>The table a hard delete of slot \<open>i\<close> leaves before it rebuilds the indexes.\<close>

lemma swap_last_same:
  "i < length xs \<Longrightarrow>
   butlast (if i \<noteq> length xs - 1 then xs[i := xs ! (length xs - 1), length xs - 1 := xs ! i] else xs)
   = butlast (xs[i := xs ! (length xs - 1), length xs - 1 := xs ! i])"
  by simp

lemma hardDelete_store:
  assumes "dyn_pkIndex t k = Some i" "i < length (dyn_records t)"
      and "length (dyn_deleted t) = length (dyn_records t)"
  shows "store_of (snd (dyn_deleteRecordByID k True t)) =
     store_of (dyn_rebuildPrimaryIndex
       (t\<lparr>dyn_records :=
            butlast ((dyn_records t)[i := dyn_records t ! (length (dyn_records t) - 1),
                                     length (dyn_records t) - 1 := dyn_records t ! i]),
          dyn_deleted :=
            butlast ((dyn_deleted t)[i := dyn_deleted t ! (length (dyn_records t) - 1),
                                     length (dyn_records t) - 1 := dyn_deleted t ! i])\<rparr>))"
proof -
  let ?l = "length (dyn_records t) - 1"
  let ?t1 = "(if i \<noteq> ?l
             then t\<lparr>dyn_records := (dyn_records t)[i := dyn_records t ! ?l, ?l := dyn_records t ! i],
                    dyn_deleted := (dyn_deleted t)[i := dyn_deleted t ! ?l, ?l := dyn_deleted t ! i]\<rparr>
             else t)"
  let ?t2 = "?t1\<lparr>dyn_records := butlast (dyn_records ?t1), dyn_deleted := butlast (dyn_deleted ?t1)\<rparr>"
  let ?t2' = "t\<lparr>dyn_records := butlast ((dyn_records t)[i := dyn_records t ! ?l, ?l := dyn_records t ! i]),
                dyn_deleted := butlast ((dyn_deleted t)[i := dyn_deleted t ! ?l, ?l := dyn_deleted t ! i])\<rparr>"
  have t2: "?t2 = ?t2'"
    by (cases "i = ?l") simp_all
  have "store_of (snd (dyn_deleteRecordByID k True t))
      = store_of ((dyn_rebuildPrimaryIndex ?t2)\<lparr>dyn_secondaryIndexes := Map.empty\<rparr>)"
    using assms(1)
    by (simp add: dyn_deleteRecordByID_def Let_def for_each_keeps[where g = store_of]
        hardDelete_body_store del: store_of_index_update)
  then show ?thesis unfolding t2 by simp
qed

lemma rebuildPrimary_store [simp]:
  "dyn_records (dyn_rebuildPrimaryIndex t) = dyn_records t"
  "dyn_deleted (dyn_rebuildPrimaryIndex t) = dyn_deleted t"
  "columns (dyn_rebuildPrimaryIndex t) = columns t"
  "derivedColumns (dyn_rebuildPrimaryIndex t) = derivedColumns t"
  "dyn_secondaryIndexedColumns (dyn_rebuildPrimaryIndex t) = dyn_secondaryIndexedColumns t"
  "dyn_secondaryIndexes (dyn_rebuildPrimaryIndex t) = dyn_secondaryIndexes t"
  by (simp_all add: dyn_rebuildPrimaryIndex_def)


lemma compact_store:
  "store_of (snd (dyn_compactRecords t)) =
     store_of (dyn_rebuildPrimaryIndex
       (t\<lparr>dyn_records := dyn_active_records t,
          dyn_deleted := replicate (length (dyn_active_records t)) False\<rparr>))"
  by (simp add: dyn_compactRecords_def Let_def for_each_keeps[where g = store_of] rebuildSec_store
      fold_compact dyn_active_records_def dyn_active_slots_def)


lemma createIndex_store:
  "store_of (snd (dyn_createIndex c t)) =
     (if (c \<notin> columns t \<and> derivedColumns t c = None) \<or> c \<in> set (dyn_secondaryIndexedColumns t)
      then store_of t
      else store_of (t\<lparr>dyn_secondaryIndexedColumns := set_insert c (dyn_secondaryIndexedColumns t)\<rparr>))"
  by (simp add: dyn_createIndex_def rebuildSec_store)


subsection \<open>The representation invariant holds after every call\<close>

lemma dyn_inv_store: "store_of s = store_of s' \<Longrightarrow> dyn_inv s = dyn_inv s'"
  by (simp add: store_of_def dyn_inv_def)

lemma dyn_inv_empty: "dyn_inv QBTableDynamic_empty"
  by (simp add: dyn_inv_def QBTableDynamic_empty_def)

lemma dyn_rebuildPk_sound:
  assumes "dyn_pkIndex (dyn_rebuildPrimaryIndex t) k = Some i"
  shows "i < length (dyn_records t) \<and> \<not> dyn_deleted t ! i \<and> id_key (dyn_records t ! i) = k"
proof -
  have "fold (\<lambda>i m. if \<not> dyn_deleted t ! i then m(id_key (dyn_records t ! i) \<mapsto> i) else m)
          [0..<length (dyn_records t)] Map.empty k = Some i"
    using assms by (simp add: dyn_rebuildPrimaryIndex_def)
  then show ?thesis
    by (rule fold_pk_sound) auto
qed

lemma dyn_inv_rebuildPrimary:
  assumes "length (dyn_deleted t) = length (dyn_records t)" "distinct (dyn_secondaryIndexedColumns t)"
  shows "dyn_inv (dyn_rebuildPrimaryIndex t)"
  unfolding dyn_inv_def using assms dyn_rebuildPk_sound[of t] by auto

lemma dyn_inv_addColumn: "dyn_inv t \<Longrightarrow> dyn_inv (snd (dyn_addColumn name v t))"
  by (auto simp: dyn_inv_def dyn_addColumn_def)

lemma dyn_inv_removeColumn: "dyn_inv t \<Longrightarrow> dyn_inv (dyn_removeColumn name t)"
  by (auto simp: dyn_inv_def dyn_removeColumn_def set_erase_def distinct_removeAll)

lemma dyn_inv_addDerivedColumn: "dyn_inv t \<Longrightarrow> dyn_inv (snd (dyn_addDerivedColumn name f t))"
  by (auto simp: dyn_inv_def dyn_addDerivedColumn_def)

lemma distinct_set_insert: "distinct xs \<Longrightarrow> distinct (set_insert x xs)"
  by (simp add: set_insert_def distinct_insort)

lemma set_set_insert [simp]: "set (set_insert x xs) = insert x (set xs)"
  by (auto simp: set_insert_def set_insort_key)

lemma dyn_inv_createIndex:
  assumes "dyn_inv t"
  shows "dyn_inv (snd (dyn_createIndex c t))"
proof (cases "(c \<notin> columns t \<and> derivedColumns t c = None) \<or> c \<in> set (dyn_secondaryIndexedColumns t)")
  case True
  then have "store_of (snd (dyn_createIndex c t)) = store_of t"
    using createIndex_store[of c t] by simp
  then show ?thesis using assms dyn_inv_store by blast
next
  case False
  let ?t' = "t\<lparr>dyn_secondaryIndexedColumns := set_insert c (dyn_secondaryIndexedColumns t)\<rparr>"
  have "dyn_inv ?t'"
    using assms by (simp add: dyn_inv_def distinct_set_insert)
  moreover have "store_of (snd (dyn_createIndex c t)) = store_of ?t'"
    using createIndex_store[of c t] False by simp
  ultimately show ?thesis using dyn_inv_store by blast
qed

lemma dyn_inv_dropIndex: "dyn_inv t \<Longrightarrow> dyn_inv (snd (dyn_dropIndex c t))"
  by (auto simp: dyn_inv_def dyn_dropIndex_def set_erase_def distinct_removeAll)

lemma dyn_inv_addRecord:
  assumes "dyn_inv t"
  shows "dyn_inv (snd (dyn_addRecord r t))"
proof (cases "\<exists>key \<in> dom (rec_fields r). key \<notin> columns t")
  case True
  then show ?thesis using assms by (simp add: addRecord_rejected)
next
  case False
  have "dyn_inv (t\<lparr>dyn_records := dyn_records t @ [r], dyn_deleted := dyn_deleted t @ [False],
                 dyn_pkIndex := (dyn_pkIndex t)(id_key r \<mapsto> length (dyn_records t))\<rparr>)"
    using assms unfolding dyn_inv_def
    by (fastforce simp: nth_append less_Suc_eq split: if_splits)
  then show ?thesis
    using dyn_inv_store[OF addRecord_store[OF False]] by simp
qed

lemma dyn_inv_delete:
  assumes "dyn_inv t"
  shows "dyn_inv (snd (dyn_deleteRecordByID k h t))"
proof (cases "dyn_pkIndex t k")
  case None
  then show ?thesis using assms by (simp add: delete_missing)
next
  case (Some i)
  with assms have i: "i < length (dyn_records t)" "\<not> dyn_deleted t ! i"
    and len: "length (dyn_deleted t) = length (dyn_records t)"
    and dist: "distinct (dyn_secondaryIndexedColumns t)"
    by (auto simp: dyn_inv_def)
  show ?thesis
  proof (cases h)
    case False
    have "dyn_inv (t\<lparr>dyn_deleted := (dyn_deleted t)[i := True],
                 dyn_pkIndex := (dyn_pkIndex t)(k := None)\<rparr>)"
      using assms Some i unfolding dyn_inv_def
      by (auto simp: nth_list_update)
    then show ?thesis
      using dyn_inv_store[OF softDelete_store[OF Some i(2)]] False by simp
  next
    case True
    show ?thesis
      using dyn_inv_store[OF hardDelete_store[OF Some i(1) len]] True
      by (simp add: dyn_inv_rebuildPrimary len dist)
  qed
qed

lemma dyn_inv_compact:
  assumes "dyn_inv t"
  shows "dyn_inv (snd (dyn_compactRecords t))"
proof -
  have "dyn_inv (dyn_rebuildPrimaryIndex
       (t\<lparr>dyn_records := dyn_active_records t,
          dyn_deleted := replicate (length (dyn_active_records t)) False\<rparr>))"
    by (rule dyn_inv_rebuildPrimary) (use assms in \<open>simp_all add: dyn_inv_def\<close>)
  then show ?thesis
    using dyn_inv_store[OF compact_store[of t]] by simp
qed

lemma dyn_inv_apply: "dyn_inv t \<Longrightarrow> dyn_inv (snd (dyn_apply x t))"
  by (cases x)
     (simp_all add: dyn_inv_addColumn dyn_inv_removeColumn dyn_inv_addDerivedColumn
        dyn_inv_createIndex dyn_inv_dropIndex dyn_inv_addRecord dyn_inv_delete dyn_inv_compact)

lemma dyn_inv_run_from: "dyn_inv t \<Longrightarrow> dyn_inv (dyn_run_from ops t)"
  unfolding dyn_run_from_def
  by (induction ops arbitrary: t) (simp_all add: dyn_inv_apply)

lemma dyn_inv_run: "dyn_inv (dyn_run ops)"
  by (simp add: dyn_run_def dyn_inv_run_from dyn_inv_empty)


subsection \<open>Calls that return keep every indexed column resolvable\<close>

lemma swap_pop_nth2:
  assumes "i < length xs" "length ds = length xs" "j < length xs - 1"
  shows "butlast (xs[i := xs ! (length xs - 1), length xs - 1 := xs ! i]) ! j
           = xs ! (if j = i then length xs - 1 else j)"
    and "butlast (ds[i := ds ! (length xs - 1), length xs - 1 := ds ! i]) ! j
           = ds ! (if j = i then length xs - 1 else j)"
  using assms by (simp_all add: nth_butlast nth_list_update)












lemma thrown_None [simp]: "thrown r = None \<longleftrightarrow> \<not> isl r"
  by (cases r) (simp_all add: thrown_def)




subsection \<open>At most one active dynamic record per key\<close>

lemma unique_swap_pop:
  assumes i: "i < length rs" and len: "length ds = length rs"
      and u: "\<forall>a<length rs. \<forall>b<length rs. \<not> ds ! a \<longrightarrow> \<not> ds ! b \<longrightarrow> f (rs ! a) = f (rs ! b) \<longrightarrow> a = b"
      and a: "a < length rs - 1" and b: "b < length rs - 1"
      and da: "\<not> butlast (ds[i := ds ! (length rs - 1), length rs - 1 := ds ! i]) ! a"
      and db: "\<not> butlast (ds[i := ds ! (length rs - 1), length rs - 1 := ds ! i]) ! b"
      and eq: "f (butlast (rs[i := rs ! (length rs - 1), length rs - 1 := rs ! i]) ! a)
             = f (butlast (rs[i := rs ! (length rs - 1), length rs - 1 := rs ! i]) ! b)"
  shows "a = b"
proof -
  let ?l = "length rs - 1"
  let ?a = "if a = i then ?l else a" and ?b = "if b = i then ?l else b"
  have "\<not> ds ! ?a" "\<not> ds ! ?b" "f (rs ! ?a) = f (rs ! ?b)"
    using da db eq swap_pop_nth2[OF i len a] swap_pop_nth2[OF i len b] by simp_all
  moreover have "?a < length rs" "?b < length rs" using a b i by auto
  ultimately have "?a = ?b" using u by blast
  then show ?thesis using a b by (auto split: if_splits)
qed

lemma dyn_active_keys_eq:
  "dyn_active_keys t = map (\<lambda>i. id_key (dyn_records t ! i))
     (filter (\<lambda>i. \<not> dyn_deleted t ! i) [0..<length (dyn_records t)])"
  by (simp add: dyn_active_keys_def dyn_active_records_def dyn_active_slots_def)

lemma dyn_distinct_active_keys_iff:
  "distinct (dyn_active_keys t) \<longleftrightarrow>
     (\<forall>i<length (dyn_records t). \<forall>j<length (dyn_records t).
        \<not> dyn_deleted t ! i \<longrightarrow> \<not> dyn_deleted t ! j \<longrightarrow>
        id_key (dyn_records t ! i) = id_key (dyn_records t ! j) \<longrightarrow> i = j)"
  unfolding dyn_active_keys_eq by (rule distinct_map_filter_upt)

lemma dyn_mem_active_keys_iff:
  "k \<in> set (dyn_active_keys t) \<longleftrightarrow>
     (\<exists>i<length (dyn_records t). \<not> dyn_deleted t ! i \<and> id_key (dyn_records t ! i) = k)"
  unfolding dyn_active_keys_eq by auto

lemma dyn_active_keys_store:
  "store_of s = store_of s' \<Longrightarrow> dyn_active_keys s = dyn_active_keys s'"
  by (simp add: store_of_def dyn_active_keys_eq)

lemma dyn_active_keys_map:
  assumes "\<And>r. id_key (g r) = id_key r"
  shows "dyn_active_keys (t\<lparr>dyn_records := map g (dyn_records t)\<rparr>) = dyn_active_keys t"
  unfolding dyn_active_keys_eq by (auto simp: assms)

lemma dyn_active_records_compact:
  "dyn_active_records (dyn_rebuildPrimaryIndex
       (t\<lparr>dyn_records := dyn_active_records t,
          dyn_deleted := replicate (length (dyn_active_records t)) False\<rparr>)) = dyn_active_records t"
proof -
  have "dyn_active_records (dyn_rebuildPrimaryIndex
       (t\<lparr>dyn_records := dyn_active_records t,
          dyn_deleted := replicate (length (dyn_active_records t)) False\<rparr>))
        = map (\<lambda>i. dyn_active_records t ! i) [0..<length (dyn_active_records t)]"
    by (simp add: dyn_active_records_def[of "dyn_rebuildPrimaryIndex _"] dyn_active_slots_def)
  then show ?thesis by (simp add: map_nth)
qed

lemma dyn_unique_addColumn:
  "dyn_active_keys (snd (dyn_addColumn name v t)) = dyn_active_keys t"
proof (cases "name \<in> columns t")
  case True
  then show ?thesis by (simp add: dyn_addColumn_def)
next
  case False
  have "dyn_active_keys (snd (dyn_addColumn name v t))
      = dyn_active_keys (t\<lparr>dyn_records :=
          map (\<lambda>r. if rec_fields r name = None
                    then r\<lparr>rec_fields := (rec_fields r)(name \<mapsto> v)\<rparr> else r) (dyn_records t)\<rparr>)"
    using False by (simp add: dyn_addColumn_def dyn_active_keys_eq)
  also have "\<dots> = dyn_active_keys t"
    by (rule dyn_active_keys_map) simp
  finally show ?thesis .
qed

lemma dyn_unique_removeColumn:
  "dyn_active_keys (dyn_removeColumn name t) = dyn_active_keys t"
proof -
  have "dyn_active_keys (dyn_removeColumn name t)
      = dyn_active_keys (t\<lparr>dyn_records :=
          map (\<lambda>r. r\<lparr>rec_fields := (rec_fields r)(name := None)\<rparr>) (dyn_records t)\<rparr>)"
    by (simp add: dyn_removeColumn_def dyn_active_keys_eq)
  also have "\<dots> = dyn_active_keys t"
    by (rule dyn_active_keys_map) simp
  finally show ?thesis .
qed

lemma dyn_unique_addRecord:
  assumes "dyn_inv t" "distinct (dyn_active_keys t)" "id_key r \<notin> set (dyn_active_keys t)"
  shows "distinct (dyn_active_keys (snd (dyn_addRecord r t)))"
proof (cases "\<exists>key \<in> dom (rec_fields r). key \<notin> columns t")
  case True
  then show ?thesis using assms by (simp add: addRecord_rejected)
next
  case False
  let ?t' = "t\<lparr>dyn_records := dyn_records t @ [r], dyn_deleted := dyn_deleted t @ [False],
                dyn_pkIndex := (dyn_pkIndex t)(id_key r \<mapsto> length (dyn_records t))\<rparr>"
  have len: "length (dyn_deleted t) = length (dyn_records t)" using assms(1) by (simp add: dyn_inv_def)
  have "distinct (dyn_active_keys ?t')"
    using assms(2,3) unfolding dyn_distinct_active_keys_iff dyn_mem_active_keys_iff
    by (auto simp: nth_append len less_Suc_eq)
  then show ?thesis
    using dyn_active_keys_store[OF addRecord_store[OF False]] by simp
qed

lemma dyn_unique_delete:
  assumes "dyn_inv t" "distinct (dyn_active_keys t)"
  shows "distinct (dyn_active_keys (snd (dyn_deleteRecordByID k h t)))"
proof (cases "dyn_pkIndex t k")
  case None
  then show ?thesis using assms by (simp add: delete_missing)
next
  case (Some i)
  with assms have i: "i < length (dyn_records t)" "\<not> dyn_deleted t ! i"
    and len: "length (dyn_deleted t) = length (dyn_records t)"
    by (auto simp: dyn_inv_def)
  show ?thesis
  proof (cases h)
    case False
    have act: "\<not> (dyn_deleted t)[i := True] ! j \<Longrightarrow> \<not> dyn_deleted t ! j"
      if "j < length (dyn_records t)" for j
      using that len by (cases "j = i") simp_all
    have "distinct (dyn_active_keys (t\<lparr>dyn_deleted := (dyn_deleted t)[i := True],
                 dyn_pkIndex := (dyn_pkIndex t)(k := None)\<rparr>))"
      using assms(2) act unfolding dyn_distinct_active_keys_iff by simp
    then show ?thesis
      using dyn_active_keys_store[OF softDelete_store[OF Some i(2)]] False by simp
  next
    case True
    let ?l = "length (dyn_records t) - 1"
    let ?rs = "butlast ((dyn_records t)[i := dyn_records t ! ?l, ?l := dyn_records t ! i])"
    let ?ds = "butlast ((dyn_deleted t)[i := dyn_deleted t ! ?l, ?l := dyn_deleted t ! i])"
    have u: "\<forall>a<length (dyn_records t). \<forall>b<length (dyn_records t).
        \<not> dyn_deleted t ! a \<longrightarrow> \<not> dyn_deleted t ! b \<longrightarrow>
        id_key (dyn_records t ! a) = id_key (dyn_records t ! b) \<longrightarrow> a = b"
      using assms(2) unfolding dyn_distinct_active_keys_iff .
    have "distinct (dyn_active_keys (dyn_rebuildPrimaryIndex (t\<lparr>dyn_records := ?rs, dyn_deleted := ?ds\<rparr>)))"
      unfolding dyn_distinct_active_keys_iff
    proof (intro allI impI)
      fix a b
      assume "a < length (dyn_records (dyn_rebuildPrimaryIndex (t\<lparr>dyn_records := ?rs, dyn_deleted := ?ds\<rparr>)))"
         and "b < length (dyn_records (dyn_rebuildPrimaryIndex (t\<lparr>dyn_records := ?rs, dyn_deleted := ?ds\<rparr>)))"
         and "\<not> dyn_deleted (dyn_rebuildPrimaryIndex (t\<lparr>dyn_records := ?rs, dyn_deleted := ?ds\<rparr>)) ! a"
         and "\<not> dyn_deleted (dyn_rebuildPrimaryIndex (t\<lparr>dyn_records := ?rs, dyn_deleted := ?ds\<rparr>)) ! b"
         and "id_key (dyn_records (dyn_rebuildPrimaryIndex (t\<lparr>dyn_records := ?rs, dyn_deleted := ?ds\<rparr>)) ! a)
            = id_key (dyn_records (dyn_rebuildPrimaryIndex (t\<lparr>dyn_records := ?rs, dyn_deleted := ?ds\<rparr>)) ! b)"
      then show "a = b"
        using unique_swap_pop[OF i(1) len u, of a b] by simp
    qed
    then show ?thesis
      using dyn_active_keys_store[OF hardDelete_store[OF Some i(1) len]] True by simp
  qed
qed

lemma dyn_unique_compact:
  "dyn_active_keys (snd (dyn_compactRecords t)) = dyn_active_keys t"
  using dyn_active_keys_store[OF compact_store[of t]]
  by (simp add: dyn_active_keys_def dyn_active_records_compact)

lemma dyn_unique_createIndex:
  "dyn_active_keys (snd (dyn_createIndex c t)) = dyn_active_keys t"
proof -
  have "dyn_records (snd (dyn_createIndex c t)) = dyn_records t"
       "dyn_deleted (snd (dyn_createIndex c t)) = dyn_deleted t"
    using createIndex_store[of c t] by (auto simp: store_of_def split: if_splits)
  then show ?thesis by (simp add: dyn_active_keys_eq)
qed

lemma dyn_unique_apply:
  assumes "dyn_inv t" "distinct (dyn_active_keys t)" "dyn_fresh_adds [x] t"
  shows "distinct (dyn_active_keys (snd (dyn_apply x t)))"
proof (cases x)
  case (DynAddColumn name v)
  then show ?thesis using assms by (simp add: dyn_unique_addColumn)
next
  case (DynRemoveColumn name)
  then show ?thesis using assms by (simp add: dyn_unique_removeColumn)
next
  case (DynAddDerivedColumn name f)
  then show ?thesis using assms by (simp add: dyn_addDerivedColumn_def dyn_active_keys_eq)
next
  case (DynCreateIndex c)
  then show ?thesis using assms by (simp add: dyn_unique_createIndex)
next
  case (DynDropIndex c)
  then show ?thesis using assms by (simp add: dyn_dropIndex_def dyn_active_keys_eq)
next
  case (DynAddRecord r)
  then show ?thesis using assms by (simp add: dyn_unique_addRecord)
next
  case (DynDeleteRecordByID k h)
  then show ?thesis using assms by (simp add: dyn_unique_delete)
next
  case DynCompactRecords
  then show ?thesis using assms by (simp add: dyn_unique_compact)
qed

lemma dyn_unique_run_from:
  "dyn_inv t \<Longrightarrow> distinct (dyn_active_keys t) \<Longrightarrow> dyn_fresh_adds ops t \<Longrightarrow>
   distinct (dyn_active_keys (dyn_run_from ops t))"
proof (induction ops arbitrary: t)
  case Nil
  then show ?case by (simp add: dyn_run_from_def)
next
  case (Cons x ops)
  have "distinct (dyn_active_keys (dyn_run_from ops (snd (dyn_apply x t))))"
  proof (rule Cons.IH)
    show "dyn_inv (snd (dyn_apply x t))" by (rule dyn_inv_apply) (rule Cons.prems)
    show "distinct (dyn_active_keys (snd (dyn_apply x t)))"
      by (rule dyn_unique_apply) (use Cons.prems in simp_all)
    show "dyn_fresh_adds ops (snd (dyn_apply x t))" using Cons.prems by simp
  qed
  then show ?case by (simp add: dyn_run_from_def)
qed

lemma dyn_unique_run:
  "dyn_fresh_adds ops QBTableDynamic_empty \<Longrightarrow> distinct (dyn_active_keys (dyn_run ops))"
  unfolding dyn_run_def
proof (rule dyn_unique_run_from)
  show "dyn_inv QBTableDynamic_empty" by (rule dyn_inv_empty)
  show "distinct (dyn_active_keys QBTableDynamic_empty)"
    by (simp add: dyn_active_keys_eq QBTableDynamic_empty_def)
qed

subsection \<open>What the rebuilt dynamic indexes hold\<close>


lemma getField_index_update [simp]:
  "dyn_getField (s\<lparr>dyn_secondaryIndexes := m\<rparr>) i c = dyn_getField s i c"
  by (simp add: dyn_getField_def Let_def split: option.splits)

lemma resolves_index_update [simp]:
  "resolves (s\<lparr>dyn_secondaryIndexes := m\<rparr>) r c = resolves s r c"
  by (simp add: resolves_def)





lemma for_each_rebuild_returns:
  assumes "\<forall>c \<in> set cs. \<forall>i < length (dyn_records s).
             \<not> dyn_deleted s ! i \<longrightarrow> resolves s (dyn_records s ! i) c"
  shows "fst (for_each dyn_rebuildSecondaryIndex cs s) = Inr ()"
proof -
  have "\<not> isl (fst (for_each dyn_rebuildSecondaryIndex cs s))"
    unfolding for_each_rebuild_isl using assms by blast
  then show ?thesis by (cases "fst (for_each dyn_rebuildSecondaryIndex cs s)") auto
qed

section \<open>Facts about single calls\<close>

subsection \<open>Counting\<close>








subsection \<open>What a delete does to queries and counts\<close>





section \<open>The claims\<close>

subsection \<open>C1: uniqueness of the primary key among active records\<close>

text \<open>
  Claim C1, as the code refutes it: \<open>addRecord\<close> never looks for the key it is
  given.  Adding two records with key 7 to the empty table leaves two active
  records that hold key 7.
\<close>

theorem C1_counterexample:
  "active_keys (QBTable_run
      [AddRecord \<lparr>column0 = 7, column1 = ''a'', column2 = 0, column3 = ''x''\<rparr>,
       AddRecord \<lparr>column0 = 7, column1 = ''b'', column2 = 1, column3 = ''y''\<rparr>]) = [7, 7]"
  by (simp add: QBTable_run_def QBTable_empty_def active_keys_eq nth_append)

text \<open>
  Claim C1, amended.  When every \<open>addRecord\<close> of a sequence of calls comes with a
  key that no active record holds at that moment, the keys of the active records
  are pairwise distinct after the sequence, whatever soft and hard deletes, index
  operations, schema operations and compactions it interleaves; the same holds
  after every prefix, a prefix of such a sequence being such a sequence.  In the
  dynamic table this holds also when calls of the sequence threw.
\<close>

theorem C1_pk_unique_when_adds_are_fresh:
  "(fresh_adds ops QBTable_empty \<longrightarrow> distinct (active_keys (QBTable_run ops)))
   \<and> (dyn_fresh_adds dops QBTableDynamic_empty \<longrightarrow> distinct (dyn_active_keys (dyn_run dops)))"
  using unique_run[of ops] dyn_unique_run[of dops] by blast

theorem C1_witness:
  "fresh_adds
     [AddRecord \<lparr>column0 = 5, column1 = ''user5'', column2 = 5, column3 = ''x''\<rparr>,
      CreateIndex COLUMN2,
      DeleteRecordByID 5 False,
      AddRecord \<lparr>column0 = 5, column1 = ''again'', column2 = 6, column3 = ''y''\<rparr>,
      CompactRecords] QBTable_empty
   \<and> distinct (active_keys (QBTable_run
     [AddRecord \<lparr>column0 = 5, column1 = ''user5'', column2 = 5, column3 = ''x''\<rparr>,
      CreateIndex COLUMN2,
      DeleteRecordByID 5 False,
      AddRecord \<lparr>column0 = 5, column1 = ''again'', column2 = 6, column3 = ''y''\<rparr>,
      CompactRecords]))
   \<and> dyn_fresh_adds
     [DynAddColumn ''name'' (Str []),
      DynAddRecord \<lparr>id_key = 5, rec_fields = [''name'' \<mapsto> Str ''ann'']\<rparr>,
      DynDeleteRecordByID 5 True,
      DynAddRecord \<lparr>id_key = 5, rec_fields = [''name'' \<mapsto> Str ''bob'']\<rparr>] QBTableDynamic_empty
   \<and> distinct (dyn_active_keys (dyn_run
     [DynAddColumn ''name'' (Str []),
      DynAddRecord \<lparr>id_key = 5, rec_fields = [''name'' \<mapsto> Str ''ann'']\<rparr>,
      DynDeleteRecordByID 5 True,
      DynAddRecord \<lparr>id_key = 5, rec_fields = [''name'' \<mapsto> Str ''bob'']\<rparr>]))"
proof -
  let ?ops = "[AddRecord \<lparr>column0 = 5, column1 = ''user5'', column2 = 5, column3 = ''x''\<rparr>,
      CreateIndex COLUMN2,
      DeleteRecordByID 5 False,
      AddRecord \<lparr>column0 = 5, column1 = ''again'', column2 = 6, column3 = ''y''\<rparr>,
      CompactRecords]"
  let ?dops = "[DynAddColumn ''name'' (Str []),
      DynAddRecord \<lparr>id_key = 5, rec_fields = [''name'' \<mapsto> Str ''ann'']\<rparr>,
      DynDeleteRecordByID 5 True,
      DynAddRecord \<lparr>id_key = 5, rec_fields = [''name'' \<mapsto> Str ''bob'']\<rparr>]"
  have h1: "fresh_adds ?ops QBTable_empty"
    by code_simp
  have h2: "dyn_fresh_adds ?dops QBTableDynamic_empty"
    by (simp add: QBTableDynamic_empty_def dyn_addColumn_def dyn_addRecord_def
        dyn_deleteRecordByID_def dyn_rebuildPrimaryIndex_def dyn_active_keys_eq Let_def)
  from C1_pk_unique_when_adds_are_fresh[of ?ops ?dops] h1 h2
  show ?thesis by blast
qed

subsection \<open>C2: the index and the scan\<close>

lemma active_records_dropIndex: "active_records (dropIndex c t) = active_records t"
  by (simp add: active_records_def active_slots_def dropIndex_def removeSecondaryIndexForColumn_def)

lemma dropIndex_not_indexed: "c \<notin> secondaryIndexedColumns (dropIndex c t) \<or> c = COLUMN0"
  by (simp add: dropIndex_def removeSecondaryIndexForColumn_def)

text \<open>
  On the fixed-schema table the claim holds in every table a sequence of calls
  can leave.  For the indexed numeric column, the index and the scan that serves
  the query once the index is dropped return the same records in the same order.
  For an indexed text column the index returns the active records whose value is
  the match text, the scan those whose value contains it.
\<close>

lemma static_index_scan_equivalence:
  assumes "c \<in> secondaryIndexedColumns (QBTable_run ops)"
  shows "c = COLUMN2 \<longrightarrow>
           findMatching (QBTable_run ops) c m = findMatching (dropIndex c (QBTable_run ops)) c m"
    and "c = COLUMN1 \<longrightarrow>
           findMatching (QBTable_run ops) c m
             = filter (\<lambda>r. column1 r = m) (active_records (QBTable_run ops)) \<and>
           findMatching (dropIndex c (QBTable_run ops)) c m
             = filter (\<lambda>r. sublist m (column1 r)) (active_records (QBTable_run ops))"
    and "c = COLUMN3 \<longrightarrow>
           findMatching (QBTable_run ops) c m
             = filter (\<lambda>r. column3 r = m) (active_records (QBTable_run ops)) \<and>
           findMatching (dropIndex c (QBTable_run ops)) c m
             = filter (\<lambda>r. sublist m (column3 r)) (active_records (QBTable_run ops))"
proof -
  let ?t = "QBTable_run ops"
  note ix = index_inv_run[of ops]
  have c0: "c \<noteq> COLUMN0" using assms index_invD(2)[OF ix] by auto
  have drop: "c \<notin> secondaryIndexedColumns (dropIndex c ?t)"
    using dropIndex_not_indexed[of c ?t] c0 by simp
  have look: "(case secondaryIndexes ?t (c, v) of None \<Rightarrow> []
          | Some bucket \<Rightarrow> map (\<lambda>idx. records ?t ! idx) (filter (\<lambda>idx. \<not> deleted ?t ! idx) bucket))
       = filter (\<lambda>r. column_key r c = v) (active_records ?t)" for v
    by (rule indexed_lookup[OF ix assms])
  show "c = COLUMN2 \<longrightarrow> findMatching ?t c m = findMatching (dropIndex c ?t) c m"
  proof
    assume c: "c = COLUMN2"
    show "findMatching ?t c m = findMatching (dropIndex c ?t) c m"
    proof (cases "from_chars_long m")
      case (Inl e)
      then show ?thesis
        using assms drop c by (simp add: findMatching_def linearScan_num_fail)
    next
      case (Inr p)
      obtain v rest where p: "p = (v, rest)" by (cases p)
      have "findMatching ?t c m = filter (\<lambda>r. column_key r c = Long v) (active_records ?t)"
        using assms c Inr p look[of "Long v"] by (simp add: findMatching_def)
      also have "\<dots> = filter (\<lambda>r. column2 r = v) (active_records ?t)"
        using c by (simp add: column_key_def)
      also have "\<dots> = findMatching (dropIndex c ?t) c m"
        using drop c Inr p
        by (simp add: findMatching_def linearScan_num[of m v rest] active_records_dropIndex)
      finally show ?thesis .
    qed
  qed
  show "c = COLUMN1 \<longrightarrow>
           findMatching ?t c m = filter (\<lambda>r. column1 r = m) (active_records ?t) \<and>
           findMatching (dropIndex c ?t) c m = filter (\<lambda>r. sublist m (column1 r)) (active_records ?t)"
  proof
    assume c: "c = COLUMN1"
    have "findMatching ?t c m = filter (\<lambda>r. column_key r c = Str m) (active_records ?t)"
      using assms c look[of "Str m"] by (simp add: findMatching_def)
    then have 1: "findMatching ?t c m = filter (\<lambda>r. column1 r = m) (active_records ?t)"
      using c by (simp add: column_key_def)
    have 2: "findMatching (dropIndex c ?t) c m = filter (\<lambda>r. sublist m (column1 r)) (active_records ?t)"
      using drop c by (simp add: findMatching_def linearScan_text1 active_records_dropIndex)
    from 1 2 show "findMatching ?t c m = filter (\<lambda>r. column1 r = m) (active_records ?t) \<and>
           findMatching (dropIndex c ?t) c m = filter (\<lambda>r. sublist m (column1 r)) (active_records ?t)"
      by simp
  qed
  show "c = COLUMN3 \<longrightarrow>
           findMatching ?t c m = filter (\<lambda>r. column3 r = m) (active_records ?t) \<and>
           findMatching (dropIndex c ?t) c m = filter (\<lambda>r. sublist m (column3 r)) (active_records ?t)"
  proof
    assume c: "c = COLUMN3"
    have "findMatching ?t c m = filter (\<lambda>r. column_key r c = Str m) (active_records ?t)"
      using assms c look[of "Str m"] by (simp add: findMatching_def)
    then have 1: "findMatching ?t c m = filter (\<lambda>r. column3 r = m) (active_records ?t)"
      using c by (simp add: column_key_def)
    have 2: "findMatching (dropIndex c ?t) c m = filter (\<lambda>r. sublist m (column3 r)) (active_records ?t)"
      using drop c by (simp add: findMatching_def linearScan_text3 active_records_dropIndex)
    from 1 2 show "findMatching ?t c m = filter (\<lambda>r. column3 r = m) (active_records ?t) \<and>
           findMatching (dropIndex c ?t) c m = filter (\<lambda>r. sublist m (column3 r)) (active_records ?t)"
      by simp
  qed
qed

text \<open>
  Claim C2.  The dynamic table breaks the equivalence on a derived column.  The
  derived column \<open>twice\<close> computes the field value \<open>UInt (2 * id)\<close>; one record with
  \<open>id = 1\<close> is added and the column is indexed, no call throwing.  With the index,
  the query for \<open>UInt 2\<close> returns the record.  Once the index is dropped the same
  query returns nothing, because the scan reads the stored fields only and never
  calls \<open>getField\<close>, although the record's value for the column is still
  \<open>UInt 2\<close>.
\<close>

theorem C2_scan_misses_derived_column:
  "dyn_no_throw
     [DynAddDerivedColumn ''twice'' (\<lambda>r. UInt (2 * id_key r)),
      DynAddRecord \<lparr>id_key = 1, rec_fields = Map.empty\<rparr>,
      DynCreateIndex ''twice''] QBTableDynamic_empty
   \<and> dyn_findMatching (dyn_run
     [DynAddDerivedColumn ''twice'' (\<lambda>r. UInt (2 * id_key r)),
      DynAddRecord \<lparr>id_key = 1, rec_fields = Map.empty\<rparr>,
      DynCreateIndex ''twice'']) ''twice'' (UInt 2)
     = Inr [\<lparr>id_key = 1, rec_fields = Map.empty\<rparr>]
   \<and> dyn_getField (snd (dyn_dropIndex ''twice'' (dyn_run
     [DynAddDerivedColumn ''twice'' (\<lambda>r. UInt (2 * id_key r)),
      DynAddRecord \<lparr>id_key = 1, rec_fields = Map.empty\<rparr>,
      DynCreateIndex ''twice'']))) 0 ''twice'' = Inr (UInt 2)
   \<and> dyn_findMatching (snd (dyn_dropIndex ''twice'' (dyn_run
     [DynAddDerivedColumn ''twice'' (\<lambda>r. UInt (2 * id_key r)),
      DynAddRecord \<lparr>id_key = 1, rec_fields = Map.empty\<rparr>,
      DynCreateIndex ''twice'']))) ''twice'' (UInt 2) = Inr []"
  by (simp add: dyn_run_def dyn_run_from_def QBTableDynamic_empty_def dyn_addDerivedColumn_def
      dyn_addRecord_def dyn_createIndex_def dyn_dropIndex_def dyn_rebuildSecondaryIndex_def
      dyn_rebuildSecondaryIndex_body_def dyn_getField_def dyn_findMatching_def
      set_insert_def set_erase_def index_push_def Let_def)

subsection \<open>C3: parsing the match text of a primary-key query\<close>

lemma findMatching_pk_parse_failure:
  "from_chars_uint s = Inl e \<Longrightarrow> findMatching t COLUMN0 s = []"
  by (simp add: findMatching_def)

lemma findMatching_rev_pk_parse_failure:
  "from_chars_uint s = Inl e \<Longrightarrow> findMatching_rev t COLUMN0 s = []"
  by (simp add: findMatching_rev_def)

lemma from_chars_uint_rest_empty:
  "from_chars_uint s = Inr (v, []) \<Longrightarrow> s \<noteq> [] \<and> (\<forall>c \<in> set s. is_digit c)"
  by (auto simp: from_chars_uint_def Let_def split: if_splits)

lemma findMatching_rev_no_prefix:
  "findMatching_rev t COLUMN0 s \<noteq> [] \<Longrightarrow> s \<noteq> [] \<and> (\<forall>c \<in> set s. is_digit c)"
  using from_chars_uint_rest_empty[of s]
  by (auto simp: findMatching_rev_def split: sum.splits if_splits option.splits)

text \<open>
  Claim C3.  A match text that does not parse gives the empty result on the
  primary-key column (\<open>findMatching_pk_parse_failure\<close>), but the query router of
  \<^verbatim>\<open>Quickbase.cpp\<close> never looks at how much of the text \<open>from_chars\<close> consumed: on
  a table that holds the key 123, the match text \<open>123abc\<close> returns the record
  with key 123.  The later revision of the router, which compares the end of
  the parse with the end of the text, returns nothing for the same query, and
  returns a record only for a text made of digits alone
  (\<open>findMatching_rev_no_prefix\<close>).
\<close>

theorem C3_prefix_accepted_by_findMatching:
  "findMatching
     (addRecord \<lparr>column0 = 123, column1 = ''a'', column2 = 0, column3 = ''b''\<rparr> QBTable_empty)
     COLUMN0 ''123abc''
   = [\<lparr>column0 = 123, column1 = ''a'', column2 = 0, column3 = ''b''\<rparr>]
   \<and> findMatching_rev
     (addRecord \<lparr>column0 = 123, column1 = ''a'', column2 = 0, column3 = ''b''\<rparr> QBTable_empty)
     COLUMN0 ''123abc'' = []"
  by (simp add: findMatching_def findMatching_rev_def addRecord_def QBTable_empty_def
      from_chars_uint_def is_digit_def digits_to_nat_def columns_in_order_def)

subsection \<open>C4: what a delete does to queries and counts\<close>




subsection \<open>C5: hard delete of a key that was soft-deleted\<close>

lemma pk_lookup_active:
  "table_inv t \<Longrightarrow> k \<notin> set (active_keys t) \<Longrightarrow> pkIndex t k = None"
  unfolding table_inv_def mem_active_keys_iff by (cases "pkIndex t k") auto

lemma dyn_pk_lookup_active:
  "dyn_inv t \<Longrightarrow> k \<notin> set (dyn_active_keys t) \<Longrightarrow> dyn_pkIndex t k = None"
  unfolding dyn_inv_def dyn_mem_active_keys_iff by (cases "dyn_pkIndex t k") auto

text \<open>
  Claim C5, as the code refutes it: after the only record with key 1 has been
  soft-deleted (it still occupies its slot: the total count is 1), the hard
  delete of key 1 returns false, in both variants.
\<close>

theorem C5_counterexample:
  "totalRecordsCount (QBTable_run
      [AddRecord \<lparr>column0 = 1, column1 = ''a'', column2 = 0, column3 = ''x''\<rparr>,
       DeleteRecordByID 1 False]) = 1
   \<and> fst (deleteRecordByID 1 True (QBTable_run
      [AddRecord \<lparr>column0 = 1, column1 = ''a'', column2 = 0, column3 = ''x''\<rparr>,
       DeleteRecordByID 1 False])) = False
   \<and> dyn_totalRecordsCount (dyn_run
      [DynAddRecord \<lparr>id_key = 1, rec_fields = Map.empty\<rparr>, DynDeleteRecordByID 1 False]) = 1
   \<and> fst (dyn_deleteRecordByID 1 True (dyn_run
      [DynAddRecord \<lparr>id_key = 1, rec_fields = Map.empty\<rparr>, DynDeleteRecordByID 1 False]))
     = Inr False"
  by (simp add: QBTable_run_def QBTable_empty_def deleteRecordByID_def totalRecordsCount_def
      columns_in_order_def addRecord_def
      dyn_run_def dyn_run_from_def QBTableDynamic_empty_def dyn_addRecord_def
      dyn_deleteRecordByID_def dyn_totalRecordsCount_def)

text \<open>
  Claim C5, amended.  In every table that a sequence of calls can leave, when no
  active record holds the key \<open>k\<close> (as after the record with key \<open>k\<close> was
  soft-deleted) the hard delete of \<open>k\<close> returns false and leaves the table as it
  is: the key is looked up in the primary-key index, from which the soft delete
  erased it.
\<close>

theorem C5_hard_delete_of_inactive_key_fails:
  "(k \<notin> set (active_keys (QBTable_run ops)) \<longrightarrow>
      deleteRecordByID k True (QBTable_run ops) = (False, QBTable_run ops))
   \<and> (k' \<notin> set (dyn_active_keys (dyn_run dops)) \<longrightarrow>
      dyn_deleteRecordByID k' True (dyn_run dops) = (Inr False, dyn_run dops))"
  using pk_lookup_active[OF inv_run, of k ops] dyn_pk_lookup_active[OF dyn_inv_run, of k' dops]
  by (auto simp: deleteRecordByID_def delete_missing)

theorem C5_witness:
  "1 \<notin> set (active_keys (QBTable_run
      [AddRecord \<lparr>column0 = 1, column1 = ''a'', column2 = 0, column3 = ''x''\<rparr>,
       AddRecord \<lparr>column0 = 2, column1 = ''b'', column2 = 0, column3 = ''y''\<rparr>,
       DeleteRecordByID 1 False]))
   \<and> fst (deleteRecordByID 1 True (QBTable_run
      [AddRecord \<lparr>column0 = 1, column1 = ''a'', column2 = 0, column3 = ''x''\<rparr>,
       AddRecord \<lparr>column0 = 2, column1 = ''b'', column2 = 0, column3 = ''y''\<rparr>,
       DeleteRecordByID 1 False])) = False
   \<and> 1 \<notin> set (dyn_active_keys (dyn_run
      [DynAddRecord \<lparr>id_key = 1, rec_fields = Map.empty\<rparr>,
       DynAddRecord \<lparr>id_key = 2, rec_fields = Map.empty\<rparr>,
       DynDeleteRecordByID 1 False]))
   \<and> fst (dyn_deleteRecordByID 1 True (dyn_run
      [DynAddRecord \<lparr>id_key = 1, rec_fields = Map.empty\<rparr>,
       DynAddRecord \<lparr>id_key = 2, rec_fields = Map.empty\<rparr>,
       DynDeleteRecordByID 1 False])) = Inr False"
proof -
  let ?ops = "[AddRecord \<lparr>column0 = 1, column1 = ''a'', column2 = 0, column3 = ''x''\<rparr>,
       AddRecord \<lparr>column0 = 2, column1 = ''b'', column2 = 0, column3 = ''y''\<rparr>,
       DeleteRecordByID 1 False]"
  let ?dops = "[DynAddRecord \<lparr>id_key = 1, rec_fields = Map.empty\<rparr>,
       DynAddRecord \<lparr>id_key = 2, rec_fields = Map.empty\<rparr>,
       DynDeleteRecordByID 1 False]"
  have h1: "1 \<notin> set (active_keys (QBTable_run ?ops))"
    by code_simp
  have h2: "1 \<notin> set (dyn_active_keys (dyn_run ?dops))"
    by (simp add: dyn_run_def dyn_run_from_def QBTableDynamic_empty_def dyn_addRecord_def
        dyn_deleteRecordByID_def dyn_active_keys_eq nth_append)
  from C5_hard_delete_of_inactive_key_fails[of 1 ?ops 1 ?dops] h1 h2
  show ?thesis by simp
qed

subsection \<open>C6: the schema check of the dynamic insert\<close>

text \<open>
  Claim C6, as the code refutes it: the schema declares the column \<open>a\<close>, the
  record carries no field at all, and \<open>addRecord\<close> returns true.
\<close>

theorem C6_counterexample:
  "\<not> (fst (dyn_addRecord \<lparr>id_key = 1, rec_fields = Map.empty\<rparr>
              (snd (dyn_addColumn ''a'' (Str []) QBTableDynamic_empty))) = Inr True
       \<longrightarrow> dom (rec_fields \<lparr>id_key = 1, rec_fields = Map.empty\<rparr>)
             = columns (snd (dyn_addColumn ''a'' (Str []) QBTableDynamic_empty)))"
  by (simp add: dyn_addRecord_def dyn_addColumn_def QBTableDynamic_empty_def)

text \<open>
  Claim C6, amended.  \<open>addRecord\<close> returns false exactly when the record carries
  a field that is not a declared column, and then the table is unchanged.  It
  returns true exactly when every field of the record is a declared column and
  the record resolves every indexed column; a record that lacks declared columns
  is not rejected for that.
\<close>

theorem C6_addRecord_rejects_undeclared_fields_only:
  "(fst (dyn_addRecord r t) = Inr False \<longleftrightarrow> (\<exists>key \<in> dom (rec_fields r). key \<notin> columns t))
   \<and> (fst (dyn_addRecord r t) = Inr False \<longrightarrow> snd (dyn_addRecord r t) = t)
   \<and> (fst (dyn_addRecord r t) = Inr True \<longleftrightarrow>
        dom (rec_fields r) \<subseteq> columns t \<and>
        (\<forall>c \<in> set (dyn_secondaryIndexedColumns t). resolves t r c))"
proof (intro conjI impI)
  show "fst (dyn_addRecord r t) = Inr False \<longleftrightarrow> (\<exists>key \<in> dom (rec_fields r). key \<notin> columns t)"
    by (rule addRecord_False)
  show "snd (dyn_addRecord r t) = t" if "fst (dyn_addRecord r t) = Inr False"
    using that addRecord_rejected[of r t] unfolding addRecord_False by simp
  show "fst (dyn_addRecord r t) = Inr True \<longleftrightarrow>
        dom (rec_fields r) \<subseteq> columns t \<and>
        (\<forall>c \<in> set (dyn_secondaryIndexedColumns t). resolves t r c)"
    unfolding addRecord_True by blast
qed

theorem C6_witness:
  "fst (dyn_addRecord \<lparr>id_key = 1, rec_fields = [''b'' \<mapsto> UInt 3]\<rparr>
         (snd (dyn_addColumn ''a'' (Str []) QBTableDynamic_empty))) = Inr False
   \<and> snd (dyn_addRecord \<lparr>id_key = 1, rec_fields = [''b'' \<mapsto> UInt 3]\<rparr>
         (snd (dyn_addColumn ''a'' (Str []) QBTableDynamic_empty)))
     = snd (dyn_addColumn ''a'' (Str []) QBTableDynamic_empty)
   \<and> fst (dyn_addRecord \<lparr>id_key = 1, rec_fields = [''a'' \<mapsto> UInt 3]\<rparr>
         (snd (dyn_addColumn ''a'' (Str []) QBTableDynamic_empty))) = Inr True"
proof -
  let ?t = "snd (dyn_addColumn ''a'' (Str []) QBTableDynamic_empty)"
  have h1: "\<exists>key \<in> dom (rec_fields \<lparr>id_key = 1, rec_fields = [''b'' \<mapsto> UInt 3]\<rparr>). key \<notin> columns ?t"
    by (simp add: dyn_addColumn_def QBTableDynamic_empty_def)
  have h2: "dom (rec_fields \<lparr>id_key = 1, rec_fields = [''a'' \<mapsto> UInt 3]\<rparr>) \<subseteq> columns ?t
      \<and> (\<forall>c \<in> set (dyn_secondaryIndexedColumns ?t).
            resolves ?t \<lparr>id_key = 1, rec_fields = [''a'' \<mapsto> UInt 3]\<rparr> c)"
    by (simp add: dyn_addColumn_def QBTableDynamic_empty_def)
  from C6_addRecord_rejects_undeclared_fields_only[of "\<lparr>id_key = 1, rec_fields = [''b'' \<mapsto> UInt 3]\<rparr>" ?t]
       C6_addRecord_rejects_undeclared_fields_only[of "\<lparr>id_key = 1, rec_fields = [''a'' \<mapsto> UInt 3]\<rparr>" ?t]
       h1 h2
  show ?thesis by blast
qed

subsection \<open>C7: what compaction leaves\<close>









subsection \<open>C8: the scan that serves an unindexed column\<close>

lemma dyn_scan_fold:
  "fold (\<lambda>i result.
           if dyn_deleted t ! i then result
           else (case rec_fields (dyn_records t ! i) column of
                   Some v \<Rightarrow> if v = value then result @ [dyn_records t ! i] else result
                 | None \<Rightarrow> result)) js acc
   = acc @ map (\<lambda>i. dyn_records t ! i)
             (filter (\<lambda>i. \<not> dyn_deleted t ! i \<and> rec_fields (dyn_records t ! i) column = Some value) js)"
  by (induction js arbitrary: acc) (auto split: option.splits)

lemma dyn_active_records_filter:
  "map (\<lambda>i. dyn_records t ! i)
     (filter (\<lambda>i. \<not> dyn_deleted t ! i \<and> Q (dyn_records t ! i)) [0..<length (dyn_records t)])
   = filter Q (dyn_active_records t)"
  by (simp add: dyn_active_records_def dyn_active_slots_def filter_map o_def conj_commute)

lemma dyn_findMatching_scan:
  assumes "column \<noteq> ''id''" "dyn_secondaryIndexes d (column, value) = None"
  shows "dyn_findMatching d column value
       = Inr (filter (\<lambda>r. rec_fields r column = Some value) (dyn_active_records d))"
  using assms dyn_active_records_filter[of d "\<lambda>r. rec_fields r column = Some value"]
  by (simp add: dyn_findMatching_def dyn_scan_fold)

text \<open>
  Claim C8, as the dynamic table refutes it: the only record holds \<open>hello\<close> in
  the unindexed text column \<open>name\<close>; \<open>ell\<close> occurs in \<open>hello\<close> (at position 1),
  and the query for \<open>ell\<close> returns nothing.
\<close>

theorem C8_counterexample:
  "map (\<lambda>r. rec_fields r ''name'') (dyn_active_records (dyn_run
      [DynAddColumn ''name'' (Str []),
       DynAddRecord \<lparr>id_key = 1, rec_fields = [''name'' \<mapsto> Str ''hello'']\<rparr>]))
     = [Some (Str ''hello'')]
   \<and> str_find ''hello'' ''ell'' = Some 1
   \<and> dyn_findMatching (dyn_run
      [DynAddColumn ''name'' (Str []),
       DynAddRecord \<lparr>id_key = 1, rec_fields = [''name'' \<mapsto> Str ''hello'']\<rparr>])
      ''name'' (Str ''ell'') = Inr []"
  by (simp add: dyn_run_def dyn_run_from_def QBTableDynamic_empty_def dyn_addColumn_def
      dyn_addRecord_def dyn_findMatching_def dyn_active_records_def dyn_active_slots_def)

text \<open>
  Claim C8, amended.  On the fixed-schema table a query on an unindexed text
  column returns the active records whose value contains the match text as a
  contiguous substring, in slot order.  On the unindexed numeric column it
  returns nothing when \<open>from_chars\<close> reports an error, and the active records
  whose value equals the number when the whole match text is a number, in
  \<^verbatim>\<open>Quickbase.cpp\<close> and in the later revision alike.  For a number followed by
  other characters the later revision of the scan, which accepts a number only
  when the whole text was consumed, returns nothing; what \<^verbatim>\<open>Quickbase.cpp\<close>
  returns there is the defect shown above for the primary-key query and is no
  part of this statement.  On
  the dynamic table a query on a column other than \<open>id\<close> for which the secondary
  index holds no bucket of the match value is served by a scan that returns the
  active records whose field equals the match value exactly: there is no
  substring matching in the dynamic table.
\<close>

theorem C8_unindexed_scan:
  "(COLUMN1 \<notin> secondaryIndexedColumns t \<longrightarrow>
      findMatching t COLUMN1 m = filter (\<lambda>r. sublist m (column1 r)) (active_records t))
   \<and> (COLUMN3 \<notin> secondaryIndexedColumns t \<longrightarrow>
      findMatching t COLUMN3 m = filter (\<lambda>r. sublist m (column3 r)) (active_records t))
   \<and> (COLUMN2 \<notin> secondaryIndexedColumns t \<longrightarrow>
      (\<forall>e. from_chars_long m = Inl e \<longrightarrow>
            findMatching t COLUMN2 m = [] \<and> findMatching_rev t COLUMN2 m = [])
      \<and> (\<forall>v. from_chars_long m = Inr (v, []) \<longrightarrow>
            findMatching t COLUMN2 m = filter (\<lambda>r. column2 r = v) (active_records t)
            \<and> findMatching_rev t COLUMN2 m = filter (\<lambda>r. column2 r = v) (active_records t))
      \<and> (\<forall>v rest. from_chars_long m = Inr (v, rest) \<and> rest \<noteq> [] \<longrightarrow>
            findMatching_rev t COLUMN2 m = []))
   \<and> (col \<noteq> ''id'' \<and> dyn_secondaryIndexes d (col, val) = None \<longrightarrow>
      dyn_findMatching d col val
        = Inr (filter (\<lambda>r. rec_fields r col = Some val) (dyn_active_records d)))"
proof (intro conjI impI allI)
  assume "COLUMN1 \<notin> secondaryIndexedColumns t"
  then show "findMatching t COLUMN1 m = filter (\<lambda>r. sublist m (column1 r)) (active_records t)"
    by (simp add: findMatching_def linearScan_text1)
next
  assume "COLUMN3 \<notin> secondaryIndexedColumns t"
  then show "findMatching t COLUMN3 m = filter (\<lambda>r. sublist m (column3 r)) (active_records t)"
    by (simp add: findMatching_def linearScan_text3)
next
  fix e assume "COLUMN2 \<notin> secondaryIndexedColumns t" "from_chars_long m = Inl e"
  then show "findMatching t COLUMN2 m = []" "findMatching_rev t COLUMN2 m = []"
    by (simp_all add: findMatching_def findMatching_rev_def linearScan_num_fail
        linearScan_rev_num_fail)
next
  fix v assume "COLUMN2 \<notin> secondaryIndexedColumns t" "from_chars_long m = Inr (v, [])"
  then show "findMatching t COLUMN2 m = filter (\<lambda>r. column2 r = v) (active_records t)"
    "findMatching_rev t COLUMN2 m = filter (\<lambda>r. column2 r = v) (active_records t)"
    by (simp_all add: findMatching_def findMatching_rev_def linearScan_num linearScan_rev_num)
next
  fix v rest
  assume "COLUMN2 \<notin> secondaryIndexedColumns t" "from_chars_long m = Inr (v, rest) \<and> rest \<noteq> []"
  then show "findMatching_rev t COLUMN2 m = []"
    by (simp add: findMatching_rev_def linearScan_rev_num_trailing)
next
  assume "col \<noteq> ''id'' \<and> dyn_secondaryIndexes d (col, val) = None"
  then show "dyn_findMatching d col val
        = Inr (filter (\<lambda>r. rec_fields r col = Some val) (dyn_active_records d))"
    by (simp add: dyn_findMatching_scan)
qed

theorem C8_witness:
  "COLUMN1 \<notin> secondaryIndexedColumns (QBTable_run
      [AddRecord \<lparr>column0 = 5, column1 = ''user5'', column2 = 5, column3 = ''x''\<rparr>,
       AddRecord \<lparr>column0 = 6, column1 = ''user6'', column2 = 6, column3 = ''y''\<rparr>])
   \<and> COLUMN2 \<notin> secondaryIndexedColumns (QBTable_run
      [AddRecord \<lparr>column0 = 5, column1 = ''user5'', column2 = 5, column3 = ''x''\<rparr>,
       AddRecord \<lparr>column0 = 6, column1 = ''user6'', column2 = 6, column3 = ''y''\<rparr>])
   \<and> findMatching (QBTable_run
      [AddRecord \<lparr>column0 = 5, column1 = ''user5'', column2 = 5, column3 = ''x''\<rparr>,
       AddRecord \<lparr>column0 = 6, column1 = ''user6'', column2 = 6, column3 = ''y''\<rparr>]) COLUMN1 ''ser''
     = filter (\<lambda>r. sublist ''ser'' (column1 r)) (active_records (QBTable_run
      [AddRecord \<lparr>column0 = 5, column1 = ''user5'', column2 = 5, column3 = ''x''\<rparr>,
       AddRecord \<lparr>column0 = 6, column1 = ''user6'', column2 = 6, column3 = ''y''\<rparr>]))
   \<and> from_chars_long ''abc'' = Inl invalid_argument
   \<and> findMatching (QBTable_run
      [AddRecord \<lparr>column0 = 5, column1 = ''user5'', column2 = 5, column3 = ''x''\<rparr>,
       AddRecord \<lparr>column0 = 6, column1 = ''user6'', column2 = 6, column3 = ''y''\<rparr>]) COLUMN2 ''abc'' = []
   \<and> from_chars_long ''5'' = Inr (5, [])
   \<and> findMatching (QBTable_run
      [AddRecord \<lparr>column0 = 5, column1 = ''user5'', column2 = 5, column3 = ''x''\<rparr>,
       AddRecord \<lparr>column0 = 6, column1 = ''user6'', column2 = 6, column3 = ''y''\<rparr>]) COLUMN2 ''5''
     = filter (\<lambda>r. column2 r = 5) (active_records (QBTable_run
      [AddRecord \<lparr>column0 = 5, column1 = ''user5'', column2 = 5, column3 = ''x''\<rparr>,
       AddRecord \<lparr>column0 = 6, column1 = ''user6'', column2 = 6, column3 = ''y''\<rparr>]))
   \<and> from_chars_long ''5abc'' = Inr (5, ''abc'')
   \<and> findMatching_rev (QBTable_run
      [AddRecord \<lparr>column0 = 5, column1 = ''user5'', column2 = 5, column3 = ''x''\<rparr>,
       AddRecord \<lparr>column0 = 6, column1 = ''user6'', column2 = 6, column3 = ''y''\<rparr>]) COLUMN2 ''5abc'' = []
   \<and> dyn_secondaryIndexes (dyn_run
      [DynAddColumn ''name'' (Str []),
       DynAddRecord \<lparr>id_key = 1, rec_fields = [''name'' \<mapsto> Str ''hello'']\<rparr>])
      (''name'', Str ''hello'') = None
   \<and> dyn_findMatching (dyn_run
      [DynAddColumn ''name'' (Str []),
       DynAddRecord \<lparr>id_key = 1, rec_fields = [''name'' \<mapsto> Str ''hello'']\<rparr>])
      ''name'' (Str ''hello'')
     = Inr (filter (\<lambda>r. rec_fields r ''name'' = Some (Str ''hello'')) (dyn_active_records (dyn_run
      [DynAddColumn ''name'' (Str []),
       DynAddRecord \<lparr>id_key = 1, rec_fields = [''name'' \<mapsto> Str ''hello'']\<rparr>])))"
proof -
  let ?t = "QBTable_run
      [AddRecord \<lparr>column0 = 5, column1 = ''user5'', column2 = 5, column3 = ''x''\<rparr>,
       AddRecord \<lparr>column0 = 6, column1 = ''user6'', column2 = 6, column3 = ''y''\<rparr>]"
  let ?d = "dyn_run
      [DynAddColumn ''name'' (Str []),
       DynAddRecord \<lparr>id_key = 1, rec_fields = [''name'' \<mapsto> Str ''hello'']\<rparr>]"
  have h1: "COLUMN1 \<notin> secondaryIndexedColumns ?t" "COLUMN2 \<notin> secondaryIndexedColumns ?t"
    by (simp_all add: QBTable_run_def QBTable_empty_def addRecord_def columns_in_order_def)
  have h2: "from_chars_long ''abc'' = Inl invalid_argument"
    by (simp add: from_chars_long_def is_digit_def)
  have h3: "from_chars_long ''5'' = Inr (5, [])"
    by (simp add: from_chars_long_def is_digit_def digits_to_nat_def)
  have h4: "from_chars_long ''5abc'' = Inr (5, ''abc'')"
    by (simp add: from_chars_long_def is_digit_def digits_to_nat_def)
  have h5: "''name'' \<noteq> ''id''" "''abc'' \<noteq> []" by simp_all
  have h6: "dyn_secondaryIndexes ?d (''name'', Str ''hello'') = None"
    by (simp add: dyn_run_def dyn_run_from_def QBTableDynamic_empty_def dyn_addColumn_def
        dyn_addRecord_def)
  from C8_unindexed_scan[where t = ?t and m = "''ser''" and d = ?d and col = "''name''"
         and val = "Str ''hello''"]
       C8_unindexed_scan[where t = ?t and m = "''abc''" and d = ?d and col = "''name''"
         and val = "Str ''hello''"]
       C8_unindexed_scan[where t = ?t and m = "''5''" and d = ?d and col = "''name''"
         and val = "Str ''hello''"]
       C8_unindexed_scan[where t = ?t and m = "''5abc''" and d = ?d and col = "''name''"
         and val = "Str ''hello''"]
       h1 h2 h3 h4 h5 h6
  show ?thesis by blast
qed

subsection \<open>C9: dropping an index\<close>

text \<open>
  Claim C9, as the dynamic table refutes it: \<open>dropIndex\<close> on the primary-key
  column \<open>id\<close> does not return normally, it throws a \<open>runtime_error\<close>.
\<close>

theorem C9_counterexample:
  "fst (dyn_dropIndex ''id'' QBTableDynamic_empty)
     = Inl (runtime_error ''Cannot drop index on primary key column'')"
  by (simp add: dyn_dropIndex_def)

text \<open>
  Claim C9, amended.  On the fixed-schema table \<open>dropIndex\<close> on the primary-key
  column returns the table unchanged, and dropping the index of any column twice
  is dropping it once.  On the dynamic table \<open>dropIndex\<close> on the column \<open>id\<close>
  throws and leaves the table unchanged, and for every column a second call
  returns what the first returned and leaves the table the first left.
\<close>

theorem C9_dropIndex_idempotent:
  "dropIndex COLUMN0 t = t
   \<and> dropIndex c (dropIndex c t) = dropIndex c t
   \<and> dyn_dropIndex ''id'' d = (Inl (runtime_error ''Cannot drop index on primary key column''), d)
   \<and> dyn_dropIndex c' (snd (dyn_dropIndex c' d)) = dyn_dropIndex c' d"
proof -
  have 1: "dropIndex COLUMN0 t = t" by (simp add: dropIndex_def)
  have 2: "dropIndex c (dropIndex c t) = dropIndex c t"
    by (simp add: dropIndex_def removeSecondaryIndexForColumn_def cong: if_cong)
  have 3: "dyn_dropIndex ''id'' d = (Inl (runtime_error ''Cannot drop index on primary key column''), d)"
    by (simp add: dyn_dropIndex_def)
  have 4: "dyn_dropIndex c' (snd (dyn_dropIndex c' d)) = dyn_dropIndex c' d"
    by (simp add: dyn_dropIndex_def set_erase_def cong: if_cong)
  from 1 2 3 4 show ?thesis by blast
qed

subsection \<open>C10: the primary-key query of the dynamic table\<close>

text \<open>
  Claim C10.  \<open>findMatching\<close> on the column \<open>id\<close> returns a result when the
  match value holds the unsigned-integer alternative; for a value that holds the
  signed-integer or the text alternative, \<open>std::get<uint>\<close> throws
  \<open>bad_variant_access\<close> and no result comes back, on every table.
\<close>

theorem C10_dyn_findMatching_id_needs_uint:
  "(\<exists>rs. dyn_findMatching t ''id'' (UInt k) = Inr rs)
   \<and> dyn_findMatching t ''id'' (Long n) = Inl bad_variant_access
   \<and> dyn_findMatching t ''id'' (Str s) = Inl bad_variant_access"
  by (simp add: dyn_findMatching_def)

end
